theory Spec2Isabelle
  imports Main "HOL-Library.Multiset"
begin

section \<open>JavaScript values\<close>

text \<open>
  The heap stores arbitrary JavaScript values and hands them to the comparator.
  The values that matter to \<^verbatim>\<open>binary-heap.js\<close> and its tests are \<^verbatim>\<open>undefined\<close>
  (what an out-of-range read and \<^verbatim>\<open>pop()\<close> on an empty array give), booleans
  (\<^verbatim>\<open>peek\<close> answers \<^verbatim>\<open>false\<close> on an empty heap), numbers and strings.
  Numbers are the integer-valued ones (\<open>NaN\<close> and fractions are left out).
\<close>

datatype jsval = Undefined | Boolean bool | Number int | String string

text \<open>\<^verbatim>\<open>ToBoolean\<close>: what \<^verbatim>\<open>while (el = h.remove())\<close> tests.\<close>

fun truthy :: "jsval \<Rightarrow> bool" where
  "truthy Undefined = False"
| "truthy (Boolean b) = b"
| "truthy (Number n) = (n \<noteq> 0)"
| "truthy (String s) = (s \<noteq> [])"

subsection \<open>Arrays\<close>

text \<open>
  A JavaScript array is a list. A read outside the bounds gives \<^verbatim>\<open>undefined\<close>; a
  write at or beyond the length extends the array (the holes read as
  \<^verbatim>\<open>undefined\<close>); \<^verbatim>\<open>pop()\<close> on an empty array gives \<^verbatim>\<open>undefined\<close> and leaves
  the array empty.
\<close>

definition js_get :: "jsval list \<Rightarrow> nat \<Rightarrow> jsval" where
  "js_get xs i = (if i < length xs then xs ! i else Undefined)"

definition js_set :: "jsval list \<Rightarrow> nat \<Rightarrow> jsval \<Rightarrow> jsval list" where
  "js_set xs i v =
     (if i < length xs then xs[i := v]
      else xs @ replicate (i - length xs) Undefined @ [v])"

definition js_push :: "jsval list \<Rightarrow> jsval \<Rightarrow> jsval list" where
  "js_push xs v = xs @ [v]"

definition js_pop :: "jsval list \<Rightarrow> jsval \<times> jsval list" where
  "js_pop xs = (if xs = [] then (Undefined, []) else (last xs, butlast xs))"

section \<open>The heap object\<close>

text \<open>
  Modelled from the spec: the two mode constants \<^verbatim>\<open>MinHeap\<close> and \<^verbatim>\<open>MaxHeap\<close> of
  \<^verbatim>\<open>./mode\<close>, which is not among the sources. The spec gives them as the two values
  of an enumeration.
\<close>

datatype heap_mode = MinHeap | MaxHeap

text \<open>
  The three private fields \<^verbatim>\<open>this[_mode]\<close>, \<^verbatim>\<open>this[_comparator]\<close> and
  \<^verbatim>\<open>this[_storage]\<close>. The comparator answers a number, of which the code reads the
  sign only; it is an integer here.
\<close>

record heap =
  mode :: heap_mode
  comparator :: "jsval \<Rightarrow> jsval \<Rightarrow> int"
  storage :: "jsval list"

text \<open>
  What a caller can pass to \<^verbatim>\<open>init\<close> and \<^verbatim>\<open>Factory\<close>: a plain value (such as the
  strings \<^verbatim>\<open>'foo'\<close> and \<^verbatim>\<open>'nope'\<close> of the tests, or \<^verbatim>\<open>undefined\<close>), one of the mode
  constants, or a function.
\<close>

datatype jsarg = Value jsval | Mode heap_mode | Function "jsval \<Rightarrow> jsval \<Rightarrow> int"

text \<open>\<^verbatim>\<open>new Error('Invalid mode')\<close> and \<^verbatim>\<open>new Error('Invalid comparator')\<close>.\<close>

datatype error = InvalidMode | InvalidComparator

text \<open>
  Modelled from the spec: the default comparator of \<^verbatim>\<open>./naive-primitive-comparator\<close>,
  which is not among the sources. The spec gives it as
  \<^verbatim>\<open>(a < b) ? -1 : (a > b) ? 1 : 0\<close>, for numbers and strings. \<^verbatim>\<open><\<close> on two strings
  is the lexicographic order of their code units, on numbers and booleans the order
  of their numeric values, and false whenever an operand is \<^verbatim>\<open>undefined\<close>. A string
  against a number or a boolean (which JavaScript would convert first) is outside
  this model and compares as unordered.
\<close>

fun str_lt :: "string \<Rightarrow> string \<Rightarrow> bool" where
  "str_lt [] [] = False"
| "str_lt [] (y # ys) = True"
| "str_lt (x # xs) [] = False"
| "str_lt (x # xs) (y # ys) =
     (if (of_char x :: nat) < of_char y then True
      else if (of_char y :: nat) < of_char x then False
      else str_lt xs ys)"

fun to_number :: "jsval \<Rightarrow> int option" where
  "to_number (Number n) = Some n"
| "to_number (Boolean b) = Some (if b then 1 else 0)"
| "to_number Undefined = None"
| "to_number (String s) = None"

fun js_lt :: "jsval \<Rightarrow> jsval \<Rightarrow> bool" where
  "js_lt (String a) (String b) = str_lt a b"
| "js_lt a b =
     (case (to_number a, to_number b) of
        (Some x, Some y) \<Rightarrow> x < y
      | _ \<Rightarrow> False)"

definition naivePrimitiveComparator :: "jsval \<Rightarrow> jsval \<Rightarrow> int" where
  "naivePrimitiveComparator a b = (if js_lt a b then - 1 else if js_lt b a then 1 else 0)"

subsection \<open>Construction\<close>

definition init :: "jsarg \<Rightarrow> jsarg \<Rightarrow> error + heap" where
  "init m c =
     (case m of
        Mode md \<Rightarrow>
          (case c of
             Function f \<Rightarrow> Inr \<lparr>mode = md, comparator = f, storage = []\<rparr>
           | _ \<Rightarrow> Inl InvalidComparator)
      | _ \<Rightarrow> Inl InvalidMode)"

text \<open>
  \<^verbatim>\<open>Factory(mode = MinHeap, comparator = naivePrimitiveComparator)\<close>: a parameter
  that is omitted or \<^verbatim>\<open>undefined\<close> takes its default.
\<close>

definition Factory :: "jsarg \<Rightarrow> jsarg \<Rightarrow> error + heap" where
  "Factory m c =
     init (case m of Value Undefined \<Rightarrow> Mode MinHeap | _ \<Rightarrow> m)
          (case c of Value Undefined \<Rightarrow> Function naivePrimitiveComparator | _ \<Rightarrow> c)"

subsection \<open>Sifting\<close>

text \<open>
  \<^verbatim>\<open>_heapUp(index)\<close>. It is private, and reached with \<open>index \<ge> 1\<close> only: \<^verbatim>\<open>insert\<close>
  passes \<open>length - 1\<close> of a storage of at least two elements, and the recursive call
  is not made for the parent index \<open>0\<close>. The equation is therefore given for
  \<open>index = Suc k\<close>, where \<^verbatim>\<open>Math.floor((index - 1) / 2)\<close> is \<open>(index - 1) div 2\<close>;
  nothing is said about index \<open>0\<close>.
\<close>

function (sequential) heapUp :: "heap \<Rightarrow> nat \<Rightarrow> heap" where
  "heapUp h (Suc k) =
     (let index = Suc k;
          parentIndex = (index - 1) div 2;
          value = js_get (storage h) index;
          parentValue = js_get (storage h) parentIndex;
          comparisonResult = comparator h value parentValue
                               * (if mode h = MaxHeap then - 1 else 1)
      in if comparisonResult \<ge> 0 then h
         else let h' = h\<lparr>storage :=
                           js_set (js_set (storage h) parentIndex value) index parentValue\<rparr>
              in if parentIndex = 0 then h' else heapUp h' parentIndex)"
  by pat_completeness auto
termination
  by (relation "measure (\<lambda>(h, i). i)") auto

text \<open>
  \<^verbatim>\<open>_heapDown(index)\<close>. The destructuring assignment
  \<^verbatim>\<open>[storage[comparisonIndex], storage[index]] = [value, comparisonValue]\<close> writes
  the child's slot first and the slot at \<open>index\<close> second.
\<close>

function heapDown :: "heap \<Rightarrow> nat \<Rightarrow> heap" where
  "heapDown h index =
     (let leftChildIndex = 2 * index + 1
      in if leftChildIndex \<ge> length (storage h) then h
         else
           let rightChildIndex = 2 * index + 2;
               value = js_get (storage h) index;
               leftChildValue = js_get (storage h) leftChildIndex;
               comparison =
                 (if leftChildIndex < length (storage h) \<and> rightChildIndex < length (storage h)
                  then
                    let rightChildValue = js_get (storage h) rightChildIndex;
                        childComparisonResult = comparator h leftChildValue rightChildValue
                    in if mode h = MaxHeap
                       then (if childComparisonResult \<ge> 0
                             then (leftChildIndex, leftChildValue)
                             else (rightChildIndex, rightChildValue))
                       else (if childComparisonResult \<ge> 0
                             then (rightChildIndex, rightChildValue)
                             else (leftChildIndex, leftChildValue))
                  else (leftChildIndex, leftChildValue));
               comparisonIndex = fst comparison;
               comparisonValue = snd comparison;
               comparisonResult = comparator h value comparisonValue
                                    * (if mode h = MinHeap then - 1 else 1)
           in if comparisonResult \<ge> 0 then h
              else heapDown
                     (h\<lparr>storage :=
                          js_set (js_set (storage h) comparisonIndex value) index comparisonValue\<rparr>)
                     comparisonIndex)"
  by pat_completeness auto
termination
proof (relation "measure (\<lambda>(h, i). length (storage h) - i)", goal_cases)
  case 1
  show ?case by simp
next
  case (2 h index leftChildIndex rightChildIndex v leftChildValue comparison ci cv cr)
  have "ci = 2 * index + 1 \<or> ci = 2 * index + 2"
    using 2 by (simp add: Let_def split: if_splits)
  moreover have "ci < length (storage h)"
    using 2 by (simp add: Let_def split: if_splits)
  ultimately have "index < ci" "length (js_set (js_set (storage h) ci v) index cv) = length (storage h)"
    by (auto simp: js_set_def)
  then show ?case using \<open>ci < length (storage h)\<close> by simp
qed

subsection \<open>The public operations\<close>

definition insert_heap :: "heap \<Rightarrow> jsval \<Rightarrow> heap" where
  "insert_heap h element =
     (let h' = h\<lparr>storage := js_push (storage h) element\<rparr>
      in if length (storage h') = 1 then h'
         else heapUp h' (length (storage h') - 1))"

text \<open>\<^verbatim>\<open>peek\<close> assigns nothing: the heap it is given is the heap it returns.\<close>

definition peek :: "heap \<Rightarrow> jsval \<times> heap" where
  "peek h =
     (if length (storage h) \<noteq> 0 then js_get (storage h) 0 else Boolean False, h)"

text \<open>
  \<^verbatim>\<open>remove\<close>. In \<^verbatim>\<open>this[_storage][0] = this[_storage].pop()\<close> the \<^verbatim>\<open>pop\<close> runs
  first and the write to index \<open>0\<close> second, on the same array.
\<close>

definition remove_heap :: "heap \<Rightarrow> jsval \<times> heap" where
  "remove_heap h =
     (if length (storage h) = 1
      then (fst (js_pop (storage h)), h\<lparr>storage := snd (js_pop (storage h))\<rparr>)
      else
        let root = js_get (storage h) 0;
            popped = js_pop (storage h);
            h' = h\<lparr>storage := js_set (snd popped) 0 (fst popped)\<rparr>
        in (root, heapDown h' 0))"

declare heapDown.simps [simp del]
declare heapUp.simps [simp del]

section \<open>Order and the heap property\<close>

text \<open>
  \<open>ordered m c a b\<close>: in mode \<open>m\<close>, \<open>a\<close> is not worse than \<open>b\<close> for the comparator
  \<open>c\<close>, that is \<open>c a b \<le> 0\<close> in a min heap and \<open>c a b \<ge> 0\<close> in a max heap.
\<close>

definition ordered :: "heap_mode \<Rightarrow> (jsval \<Rightarrow> jsval \<Rightarrow> int) \<Rightarrow> jsval \<Rightarrow> jsval \<Rightarrow> bool" where
  "ordered m c a b = (if m = MinHeap then c a b \<le> 0 else c a b \<ge> 0)"

definition consistent_total_order :: "jsval set \<Rightarrow> (jsval \<Rightarrow> jsval \<Rightarrow> int) \<Rightarrow> bool" where
  "consistent_total_order S c =
     ((\<forall>a\<in>S. \<forall>b\<in>S. sgn (c a b) = - sgn (c b a)) \<and>
      (\<forall>a\<in>S. \<forall>b\<in>S. \<forall>d\<in>S. c a b \<le> 0 \<longrightarrow> c b d \<le> 0 \<longrightarrow> c a d \<le> 0))"

text \<open>
  The heap property on the storage array: every element is not worse than its
  children at \<open>2 i + 1\<close> and \<open>2 i + 2\<close>, where they exist.
\<close>

definition heap_property :: "heap \<Rightarrow> bool" where
  "heap_property h =
     (\<forall>i < length (storage h).
        (2 * i + 1 < length (storage h) \<longrightarrow>
           ordered (mode h) (comparator h) (storage h ! i) (storage h ! (2 * i + 1))) \<and>
        (2 * i + 2 < length (storage h) \<longrightarrow>
           ordered (mode h) (comparator h) (storage h ! i) (storage h ! (2 * i + 2))))"

text \<open>
  For the proofs: the same property read from the child to its parent, and the two
  weakened forms that hold while an element is sifted down from, or up from, index
  \<open>k\<close>.
\<close>

definition preorder_on :: "jsval set \<Rightarrow> (jsval \<Rightarrow> jsval \<Rightarrow> bool) \<Rightarrow> bool" where
  "preorder_on S le =
     ((\<forall>a\<in>S. \<forall>b\<in>S. le a b \<or> le b a) \<and>
      (\<forall>a\<in>S. \<forall>b\<in>S. \<forall>d\<in>S. le a b \<longrightarrow> le b d \<longrightarrow> le a d))"

definition parent_ordered :: "(jsval \<Rightarrow> jsval \<Rightarrow> bool) \<Rightarrow> jsval list \<Rightarrow> bool" where
  "parent_ordered le s = (\<forall>i. 0 < i \<and> i < length s \<longrightarrow> le (s ! ((i - 1) div 2)) (s ! i))"

definition except_down :: "(jsval \<Rightarrow> jsval \<Rightarrow> bool) \<Rightarrow> jsval list \<Rightarrow> nat \<Rightarrow> bool" where
  "except_down le s k =
     ((\<forall>i. 0 < i \<and> i < length s \<and> (i - 1) div 2 \<noteq> k \<longrightarrow> le (s ! ((i - 1) div 2)) (s ! i)) \<and>
      (\<forall>i. 0 < i \<and> i < length s \<and> (i - 1) div 2 = k \<and> 0 < k \<longrightarrow> le (s ! ((k - 1) div 2)) (s ! i)))"

definition except_up :: "(jsval \<Rightarrow> jsval \<Rightarrow> bool) \<Rightarrow> jsval list \<Rightarrow> nat \<Rightarrow> bool" where
  "except_up le s k =
     ((\<forall>i. 0 < i \<and> i < length s \<and> i \<noteq> k \<longrightarrow> le (s ! ((i - 1) div 2)) (s ! i)) \<and>
      (\<forall>i. 0 < i \<and> i < length s \<and> (i - 1) div 2 = k \<and> 0 < k \<longrightarrow> le (s ! ((k - 1) div 2)) (s ! i)))"

section \<open>Sifting restores the order\<close>

subsection \<open>On lists\<close>

lemma down_leaf:
  assumes "except_down le s k" "length s \<le> 2 * k + 1"
  shows "parent_ordered le s"
  unfolding parent_ordered_def
proof (intro allI impI)
  fix i assume i: "0 < i \<and> i < length s"
  then have "(i - 1) div 2 \<noteq> k" using assms(2) by linarith
  then show "le (s ! ((i - 1) div 2)) (s ! i)"
    using assms(1) i unfolding except_down_def by blast
qed

lemma down_stop:
  assumes e: "except_down le s k"
    and c: "\<forall>j. j < length s \<and> 0 < j \<and> (j - 1) div 2 = k \<longrightarrow> le (s ! k) (s ! j)"
  shows "parent_ordered le s"
  unfolding parent_ordered_def
proof (intro allI impI)
  fix i assume i: "0 < i \<and> i < length s"
  show "le (s ! ((i - 1) div 2)) (s ! i)"
  proof (cases "(i - 1) div 2 = k")
    case True
    then show ?thesis using c i by auto
  next
    case False
    then show ?thesis using e i unfolding except_down_def by blast
  qed
qed

lemma down_swap:
  assumes e: "except_down le s k"
    and ci: "0 < ci" "(ci - 1) div 2 = k" "ci < length s"
    and lt: "le (s ! ci) (s ! k)"
    and mn: "\<forall>j. j < length s \<and> 0 < j \<and> (j - 1) div 2 = k \<longrightarrow> le (s ! ci) (s ! j)"
  shows "except_down le (s[ci := s ! k, k := s ! ci]) ci"
proof -
  let ?t = "s[ci := s ! k, k := s ! ci]"
  have kci: "k < ci" using ci by linarith
  have kn: "k < length s" using kci ci by simp
  have tk: "?t ! k = s ! ci" using kn by simp
  have tci: "?t ! ci = s ! k" using ci kci by simp
  have oth: "\<And>j. j \<noteq> k \<Longrightarrow> j \<noteq> ci \<Longrightarrow> ?t ! j = s ! j" by simp
  have p1: "le (?t ! ((i - 1) div 2)) (?t ! i)"
    if i: "0 < i" "i < length s" "(i - 1) div 2 \<noteq> ci" for i
  proof -
    consider "i = ci" | "i \<noteq> ci" "(i - 1) div 2 = k" | "i = k" | "i \<noteq> ci" "i \<noteq> k" "(i - 1) div 2 \<noteq> k"
      by blast
    then show ?thesis
    proof cases
      case 1
      then show ?thesis using ci tk tci lt by simp
    next
      case 2
      have ik: "i \<noteq> k" using 2 i by linarith
      have "le (s ! ci) (s ! i)" using mn i 2 by blast
      then show ?thesis using 2 ik tk oth by simp
    next
      case 3
      have k0: "0 < k" using 3 i by simp
      have pk: "(k - 1) div 2 \<noteq> k" "(k - 1) div 2 \<noteq> ci" using k0 kci by linarith+
      have "le (s ! ((k - 1) div 2)) (s ! ci)"
        using e ci k0 unfolding except_down_def by blast
      then show ?thesis using 3 pk tk oth by simp
    next
      case 4
      have "le (s ! ((i - 1) div 2)) (s ! i)"
        using e i 4 unfolding except_down_def by blast
      then show ?thesis using 4 i oth by simp
    qed
  qed
  have p2: "le (?t ! ((ci - 1) div 2)) (?t ! i)"
    if i: "0 < i" "i < length s" "(i - 1) div 2 = ci" for i
  proof -
    have ici: "ci < i" using i by linarith
    have "(i - 1) div 2 \<noteq> k" using i kci by simp
    then have "le (s ! ci) (s ! i)" using e i unfolding except_down_def by metis
    then show ?thesis using ci tk oth ici kci by simp
  qed
  show ?thesis unfolding except_down_def using p1 p2 by simp
qed

lemma up_root: "except_up le s 0 \<Longrightarrow> parent_ordered le s"
  unfolding except_up_def parent_ordered_def by blast

lemma up_stop:
  assumes e: "except_up le s k" and c: "le (s ! ((k - 1) div 2)) (s ! k)"
  shows "parent_ordered le s"
  unfolding parent_ordered_def
proof (intro allI impI)
  fix i assume i: "0 < i \<and> i < length s"
  show "le (s ! ((i - 1) div 2)) (s ! i)"
  proof (cases "i = k")
    case True
    then show ?thesis using c by simp
  next
    case False
    then show ?thesis using e i unfolding except_up_def by blast
  qed
qed

lemma up_swap:
  assumes e: "except_up le s k"
    and k: "0 < k" "k < length s"
    and lt: "le (s ! k) (s ! ((k - 1) div 2))"
    and tr: "preorder_on S le" "set s \<subseteq> S"
  shows "except_up le (s[(k - 1) div 2 := s ! k, k := s ! ((k - 1) div 2)]) ((k - 1) div 2)"
proof -
  let ?p = "(k - 1) div 2"
  let ?t = "s[?p := s ! k, k := s ! ?p]"
  have pk: "?p < k" using k by linarith
  have pn: "?p < length s" using pk k by simp
  have tk: "?t ! k = s ! ?p" using k by simp
  have tp: "?t ! ?p = s ! k" using pn pk by simp
  have oth: "\<And>j. j \<noteq> k \<Longrightarrow> j \<noteq> ?p \<Longrightarrow> ?t ! j = s ! j" by simp
  have inS: "\<And>j. j < length s \<Longrightarrow> s ! j \<in> S" using tr(2) nth_mem by blast
  have trans: "\<And>a b d. a \<in> S \<Longrightarrow> b \<in> S \<Longrightarrow> d \<in> S \<Longrightarrow> le a b \<Longrightarrow> le b d \<Longrightarrow> le a d"
    using tr(1) unfolding preorder_on_def by blast
  have p1: "le (?t ! ((i - 1) div 2)) (?t ! i)"
    if i: "0 < i" "i < length s" "i \<noteq> ?p" for i
  proof -
    consider "i = k" | "i \<noteq> k" "(i - 1) div 2 = ?p" | "(i - 1) div 2 = k" | "i \<noteq> k" "(i - 1) div 2 \<noteq> ?p" "(i - 1) div 2 \<noteq> k"
      by blast
    then show ?thesis
    proof cases
      case 1
      then show ?thesis using tk tp lt by simp
    next
      case 2
      have "le (s ! ?p) (s ! i)" using e i 2 unfolding except_up_def by metis
      then have "le (s ! k) (s ! i)" using trans [OF inS [OF k(2)] inS [OF pn] inS [OF i(2)] lt] by simp
      then show ?thesis using 2 i tp oth by simp
    next
      case 3
      have ik: "i \<noteq> k" using 3 i by linarith
      have "le (s ! ?p) (s ! i)" using e i 3 k unfolding except_up_def by blast
      then show ?thesis using 3 ik i tk oth by simp
    next
      case 4
      have "le (s ! ((i - 1) div 2)) (s ! i)" using e i 4 unfolding except_up_def by blast
      then show ?thesis using 4 i oth by simp
    qed
  qed
  have p2: "le (?t ! ((?p - 1) div 2)) (?t ! i)"
    if i: "0 < i" "i < length s" "(i - 1) div 2 = ?p" "0 < ?p" for i
  proof -
    have ppp: "(?p - 1) div 2 < ?p" using i(4) by linarith
    have g: "le (s ! ((?p - 1) div 2)) (s ! ?p)"
      using e i(4) pn pk unfolding except_up_def by (metis less_irrefl)
    have ppn: "(?p - 1) div 2 < length s" using ppp pn by simp
    have tpp: "?t ! ((?p - 1) div 2) = s ! ((?p - 1) div 2)" using ppp pk by simp
    show ?thesis
    proof (cases "i = k")
      case True
      then show ?thesis using g tk tpp by simp
    next
      case False
      have ip: "i \<noteq> ?p" using i by linarith
      have "le (s ! ?p) (s ! i)" using e i False unfolding except_up_def by metis
      then have "le (s ! ((?p - 1) div 2)) (s ! i)"
        using trans [OF inS [OF ppn] inS [OF pn] inS [OF i(2)] g] by simp
      then show ?thesis using False ip oth tpp by simp
    qed
  qed
  show ?thesis unfolding except_up_def using p1 p2 by simp
qed

lemma root_least:
  assumes po: "parent_ordered le s" and tr: "preorder_on S le" "set s \<subseteq> S"
  shows "i < length s \<Longrightarrow> le (s ! 0) (s ! i)"
proof (induction i rule: less_induct)
  case (less i)
  have inS: "\<And>j. j < length s \<Longrightarrow> s ! j \<in> S" using tr(2) nth_mem by blast
  show ?case
  proof (cases "i = 0")
    case True
    have "s ! 0 \<in> S" using inS less.prems True by simp
    then show ?thesis using tr(1) True unfolding preorder_on_def by blast
  next
    case False
    let ?p = "(i - 1) div 2"
    have pi: "?p < i" using False by linarith
    have pn: "?p < length s" using pi less.prems by simp
    have a: "le (s ! 0) (s ! ?p)" using less.IH [OF pi pn] .
    have b: "le (s ! ?p) (s ! i)" using po False less.prems unfolding parent_ordered_def by simp
    have z: "0 < length s" using less.prems by linarith
    show ?thesis
      using tr(1) inS [OF z] inS [OF pn] inS [OF less.prems] a b
      unfolding preorder_on_def by blast
  qed
qed

subsection \<open>Comparators\<close>

lemma sgn_flip:
  fixes x y :: int
  assumes "sgn x = - sgn y"
  shows "(x \<le> 0) = (0 \<le> y)" and "(0 \<le> x) = (y \<le> 0)" and "(x < 0) = (0 < y)"
proof -
  consider "x < 0" | "x = 0" | "0 < x" by linarith
  then have "(x < 0 \<and> 0 < y) \<or> (x = 0 \<and> y = 0) \<or> (0 < x \<and> y < 0)"
  proof cases
    case 1
    then have "sgn y = 1" using assms by simp
    then show ?thesis using 1 by (simp add: sgn_1_pos)
  next
    case 2
    then have "sgn y = 0" using assms by simp
    then show ?thesis using 2 by (simp add: sgn_0_0)
  next
    case 3
    then have "sgn y = - 1" using assms by simp
    then show ?thesis using 3 by (simp add: sgn_1_neg)
  qed
  then show "(x \<le> 0) = (0 \<le> y)" and "(0 \<le> x) = (y \<le> 0)" and "(x < 0) = (0 < y)"
    by linarith+
qed

lemma cto_flip:
  assumes "consistent_total_order S c" "a \<in> S" "b \<in> S"
  shows "(c a b \<le> 0) = (0 \<le> c b a)" and "(0 \<le> c a b) = (c b a \<le> 0)"
    and "(c a b < 0) = (0 < c b a)"
proof -
  have s: "sgn (c a b) = - sgn (c b a)"
    using assms unfolding consistent_total_order_def by blast
  show "(c a b \<le> 0) = (0 \<le> c b a)" by (rule sgn_flip(1) [OF s])
  show "(0 \<le> c a b) = (c b a \<le> 0)" by (rule sgn_flip(2) [OF s])
  show "(c a b < 0) = (0 < c b a)" by (rule sgn_flip(3) [OF s])
qed

lemma cto_trans:
  assumes "consistent_total_order S c" "a \<in> S" "b \<in> S" "d \<in> S" "c a b \<le> 0" "c b d \<le> 0"
  shows "c a d \<le> 0"
  using assms unfolding consistent_total_order_def by blast

lemma cto_preorder:
  assumes c: "consistent_total_order S c"
  shows "preorder_on S (ordered m c)"
  unfolding preorder_on_def
proof (intro conjI ballI impI)
  fix a b assume ab: "a \<in> S" "b \<in> S"
  have "(c a b \<le> 0) = (0 \<le> c b a)" using cto_flip(1) [OF c ab] .
  then have "(c a b \<le> 0 \<or> c b a \<le> 0) \<and> (0 \<le> c a b \<or> 0 \<le> c b a)" by linarith
  then show "ordered m c a b \<or> ordered m c b a" by (simp add: ordered_def)
next
  fix a b d
  assume abd: "a \<in> S" "b \<in> S" "d \<in> S" and 1: "ordered m c a b" and 2: "ordered m c b d"
  show "ordered m c a d"
  proof (cases m)
    case MinHeap
    then have "c a b \<le> 0" "c b d \<le> 0" using 1 2 by (simp_all add: ordered_def)
    then have "c a d \<le> 0" by (rule cto_trans [OF c abd])
    then show ?thesis using MinHeap by (simp add: ordered_def)
  next
    case MaxHeap
    then have "0 \<le> c a b" "0 \<le> c b d" using 1 2 by (simp_all add: ordered_def)
    then have "c b a \<le> 0" "c d b \<le> 0"
      using cto_flip(2) [OF c abd(1) abd(2)] cto_flip(2) [OF c abd(2) abd(3)] by simp_all
    then have "c d a \<le> 0" using cto_trans [OF c abd(3) abd(2) abd(1)] by simp
    then have "0 \<le> c a d" using cto_flip(2) [OF c abd(1) abd(3)] by simp
    then show ?thesis using MaxHeap by (simp add: ordered_def)
  qed
qed

subsection \<open>Sifting down\<close>

text \<open>The child that \<^verbatim>\<open>_heapDown\<close> compares against, with its value.\<close>

definition comparisonChild :: "heap \<Rightarrow> nat \<Rightarrow> nat \<times> jsval" where
  "comparisonChild h index =
     (let leftChildIndex = 2 * index + 1;
          rightChildIndex = 2 * index + 2;
          leftChildValue = js_get (storage h) leftChildIndex
      in if leftChildIndex < length (storage h) \<and> rightChildIndex < length (storage h)
         then
           let rightChildValue = js_get (storage h) rightChildIndex;
               childComparisonResult = comparator h leftChildValue rightChildValue
           in if mode h = MaxHeap
              then (if childComparisonResult \<ge> 0
                    then (leftChildIndex, leftChildValue)
                    else (rightChildIndex, rightChildValue))
              else (if childComparisonResult \<ge> 0
                    then (rightChildIndex, rightChildValue)
                    else (leftChildIndex, leftChildValue))
         else (leftChildIndex, leftChildValue))"

lemma comparisonChild_index:
  "fst (comparisonChild h index) = 2 * index + 1 \<or> fst (comparisonChild h index) = 2 * index + 2"
  by (simp add: comparisonChild_def Let_def)

lemma comparisonChild_bound:
  "2 * index + 1 < length (storage h) \<Longrightarrow> fst (comparisonChild h index) < length (storage h)"
  by (simp add: comparisonChild_def Let_def)

lemma heapDown_child:
  "heapDown h index =
     (if 2 * index + 1 \<ge> length (storage h) then h
      else if 0 \<le> comparator h (js_get (storage h) index) (snd (comparisonChild h index))
                     * (if mode h = MinHeap then - 1 else 1) then h
      else heapDown
             (h\<lparr>storage := js_set (js_set (storage h) (fst (comparisonChild h index))
                                        (js_get (storage h) index))
                                index (snd (comparisonChild h index))\<rparr>)
             (fst (comparisonChild h index)))"
  by (subst heapDown.simps) (simp only: Let_def comparisonChild_def)

lemma js_get_nth: "i < length xs \<Longrightarrow> js_get xs i = xs ! i"
  by (simp add: js_get_def)

lemma js_set_update: "i < length xs \<Longrightarrow> js_set xs i v = xs[i := v]"
  by (simp add: js_set_def)

lemma comparisonChild_snd:
  "2 * k + 1 < length (storage h) \<Longrightarrow>
   snd (comparisonChild h k) = storage h ! fst (comparisonChild h k)"
  by (simp add: comparisonChild_def Let_def js_get_nth)

lemma comparisonChild_parent:
  "0 < fst (comparisonChild h k) \<and> (fst (comparisonChild h k) - 1) div 2 = k"
  using comparisonChild_index [of h k] by auto

lemma comparisonChild_least:
  assumes c: "consistent_total_order S (comparator h)" and s: "set (storage h) \<subseteq> S"
    and l: "2 * k + 1 < length (storage h)"
    and j: "j < length (storage h)" "0 < j" "(j - 1) div 2 = k"
  shows "ordered (mode h) (comparator h) (storage h ! fst (comparisonChild h k)) (storage h ! j)"
proof -
  have inS: "\<And>i. i < length (storage h) \<Longrightarrow> storage h ! i \<in> S" using s nth_mem by blast
  have jj: "j = 2 * k + 1 \<or> j = 2 * k + 2" using j by linarith
  have refl: "\<And>a. a \<in> S \<Longrightarrow> ordered (mode h) (comparator h) a a"
    using cto_preorder [OF c, of "mode h"] unfolding preorder_on_def by blast
  show ?thesis
  proof (cases "2 * k + 2 < length (storage h)")
    case False
    then have "j = 2 * k + 1" using jj j by simp
    moreover have "fst (comparisonChild h k) = 2 * k + 1"
      using False by (simp add: comparisonChild_def Let_def)
    ultimately show ?thesis using refl inS l by simp
  next
    case True
    let ?l = "storage h ! (2 * k + 1)" and ?r = "storage h ! (2 * k + 2)"
    have lS: "?l \<in> S" and rS: "?r \<in> S" using inS l True by blast+
    have f: "(0 \<le> comparator h ?l ?r) = (comparator h ?r ?l \<le> 0)"
and g: "(comparator h ?l ?r < 0) = (0 < comparator h ?r ?l)"
      using cto_flip [OF c lS rS] by blast+
    have fc: "fst (comparisonChild h k) =
          (if mode h = MaxHeap
           then (if 0 \<le> comparator h ?l ?r then 2 * k + 1 else 2 * k + 2)
           else (if 0 \<le> comparator h ?l ?r then 2 * k + 2 else 2 * k + 1))"
      using True l by (simp add: comparisonChild_def Let_def js_get_nth)
    show ?thesis
    proof (cases "mode h")
      case MinHeap
      then show ?thesis
        using jj fc f g refl [OF lS] refl [OF rS] by (auto simp: ordered_def)
    next
      case MaxHeap
      then show ?thesis
        using jj fc f g refl [OF lS] refl [OF rS] by (auto simp: ordered_def)
    qed
  qed
qed

lemma down_result_ordered:
  "(0 \<le> comparator h v w * (if mode h = MinHeap then - 1 else 1)) =
   ordered (mode h) (comparator h) v w"
  by (cases "mode h") (simp_all add: ordered_def)

lemma heapDown_unfold:
  "heapDown h k =
     (if length (storage h) \<le> 2 * k + 1 then h
      else if ordered (mode h) (comparator h) (storage h ! k)
                (storage h ! fst (comparisonChild h k)) then h
      else heapDown
             (h\<lparr>storage := (storage h)[fst (comparisonChild h k) := storage h ! k,
                                        k := storage h ! fst (comparisonChild h k)]\<rparr>)
             (fst (comparisonChild h k)))"
proof (cases "length (storage h) \<le> 2 * k + 1")
  case True
  then show ?thesis by (subst heapDown_child) simp
next
  case False
  then have l: "2 * k + 1 < length (storage h)" by simp
  let ?ci = "fst (comparisonChild h k)"
  have ci: "?ci < length (storage h)" using comparisonChild_bound [OF l] .
  have k: "k < length (storage h)" using l by simp
  have g: "js_get (storage h) k = storage h ! k" using k by (rule js_get_nth)
  have s: "js_set (js_set (storage h) ?ci (storage h ! k)) k (storage h ! ?ci)
           = (storage h)[?ci := storage h ! k, k := storage h ! ?ci]"
    using ci k by (simp add: js_set_update)
  have "heapDown h k =
        (if 0 \<le> comparator h (storage h ! k) (storage h ! ?ci)
                   * (if mode h = MinHeap then - 1 else 1) then h
         else heapDown (h\<lparr>storage := (storage h)[?ci := storage h ! k, k := storage h ! ?ci]\<rparr>) ?ci)"
    by (subst heapDown_child) (simp only: False if_False g s comparisonChild_snd [OF l])
  then show ?thesis
    by (simp only: down_result_ordered False if_False)
qed

lemma heapDown_keeps:
  "mode (heapDown h k) = mode h \<and> comparator (heapDown h k) = comparator h
   \<and> mset (storage (heapDown h k)) = mset (storage h)"
proof (induction "length (storage h) - k" arbitrary: h k rule: less_induct)
  case less
  let ?ci = "fst (comparisonChild h k)"
  let ?h' = "h\<lparr>storage := (storage h)[?ci := storage h ! k, k := storage h ! ?ci]\<rparr>"
  show ?case
  proof (cases "length (storage h) \<le> 2 * k + 1
                \<or> ordered (mode h) (comparator h) (storage h ! k) (storage h ! ?ci)")
    case True
    then have "heapDown h k = h" using heapDown_unfold [of h k] by auto
    then show ?thesis by simp
  next
    case False
    then have l: "2 * k + 1 < length (storage h)" by simp
    have ci: "?ci < length (storage h)" using comparisonChild_bound [OF l] .
    have kci: "k < ?ci" using comparisonChild_index [of h k] by auto
    have eq: "heapDown h k = heapDown ?h' ?ci" using False heapDown_unfold [of h k] by auto
    have m: "length (storage ?h') - ?ci < length (storage h) - k" using ci kci by simp
    have ms: "mset (storage ?h') = mset (storage h)"
      using mset_swap [of k "storage h" ?ci] ci kci by simp
    show ?thesis using less.hyps [OF m] ms eq by simp
  qed
qed

lemma heapDown_restores:
  assumes "consistent_total_order S (comparator h)" "set (storage h) \<subseteq> S"
    and "except_down (ordered (mode h) (comparator h)) (storage h) k"
  shows "parent_ordered (ordered (mode h) (comparator h)) (storage (heapDown h k))"
  using assms
proof (induction "length (storage h) - k" arbitrary: h k rule: less_induct)
  case less
  let ?le = "ordered (mode h) (comparator h)"
  let ?s = "storage h"
  let ?ci = "fst (comparisonChild h k)"
  let ?h' = "h\<lparr>storage := ?s[?ci := ?s ! k, k := ?s ! ?ci]\<rparr>"
  note c = less.prems(1) and s = less.prems(2) and e = less.prems(3)
  have pre: "preorder_on S ?le" using cto_preorder [OF c] .
  have inS: "\<And>i. i < length ?s \<Longrightarrow> ?s ! i \<in> S" using s nth_mem by blast
  show ?case
  proof (cases "length ?s \<le> 2 * k + 1")
    case True
    then have "heapDown h k = h" using heapDown_unfold [of h k] by auto
    then show ?thesis using down_leaf [OF e True] by simp
  next
    case False
    then have l: "2 * k + 1 < length ?s" by simp
    have ci: "?ci < length ?s" using comparisonChild_bound [OF l] .
    have kci: "k < ?ci" using comparisonChild_index [of h k] by auto
    have k: "k < length ?s" using l by simp
    have par: "0 < ?ci" "(?ci - 1) div 2 = k" using comparisonChild_parent [of h k] by simp_all
    have least: "\<forall>j. j < length ?s \<and> 0 < j \<and> (j - 1) div 2 = k \<longrightarrow> ?le (?s ! ?ci) (?s ! j)"
      using comparisonChild_least [OF c s l] by blast
    show ?thesis
    proof (cases "?le (?s ! k) (?s ! ?ci)")
      case True
      then have eq: "heapDown h k = h" using heapDown_unfold [of h k] by auto
      have "\<forall>j. j < length ?s \<and> 0 < j \<and> (j - 1) div 2 = k \<longrightarrow> ?le (?s ! k) (?s ! j)"
      proof (intro allI impI)
        fix j assume j: "j < length ?s \<and> 0 < j \<and> (j - 1) div 2 = k"
        then have "?le (?s ! ?ci) (?s ! j)" using least by blast
        then show "?le (?s ! k) (?s ! j)"
          using pre True inS [OF k] inS [OF ci] inS [of j] j unfolding preorder_on_def by blast
      qed
      then show ?thesis using down_stop [OF e] eq by simp
    next
      case nle: False
      then have eq: "heapDown h k = heapDown ?h' ?ci"
        using False heapDown_unfold [of h k] by auto
      have lt: "?le (?s ! ?ci) (?s ! k)"
        using pre nle inS [OF k] inS [OF ci] unfolding preorder_on_def by blast
      have e': "except_down ?le (storage ?h') ?ci"
        using down_swap [OF e par ci lt least] by simp
      have m: "length (storage ?h') - ?ci < length ?s - k" using ci kci by simp
      have ms: "mset (storage ?h') = mset ?s"
        using mset_swap [of k ?s ?ci] ci kci by simp
      have s': "set (storage ?h') \<subseteq> S" using s mset_eq_setD [OF ms] by simp
      have "parent_ordered (ordered (mode ?h') (comparator ?h')) (storage (heapDown ?h' ?ci))"
        by (rule less.hyps [OF m]) (use c s' e' in simp_all)
      then show ?thesis using eq by simp
    qed
  qed
qed

subsection \<open>Sifting up\<close>

lemma heapUp_unfold:
  assumes "0 < k" "k < length (storage h)"
  shows "heapUp h k =
     (if 0 \<le> comparator h (storage h ! k) (storage h ! ((k - 1) div 2))
                 * (if mode h = MaxHeap then - 1 else 1) then h
      else if (k - 1) div 2 = 0
        then h\<lparr>storage := (storage h)[(k - 1) div 2 := storage h ! k,
                                         k := storage h ! ((k - 1) div 2)]\<rparr>
        else heapUp (h\<lparr>storage := (storage h)[(k - 1) div 2 := storage h ! k,
                                                k := storage h ! ((k - 1) div 2)]\<rparr>)
               ((k - 1) div 2))"
proof -
  obtain n where n: "k = Suc n" using assms(1) by (cases k) auto
  have p: "(k - 1) div 2 < length (storage h)" using assms by linarith
  have g: "js_get (storage h) k = storage h ! k"
    "js_get (storage h) ((k - 1) div 2) = storage h ! ((k - 1) div 2)"
    using assms p by (simp_all add: js_get_nth)
  have s: "js_set (js_set (storage h) ((k - 1) div 2) (storage h ! k)) k (storage h ! ((k - 1) div 2))
           = (storage h)[(k - 1) div 2 := storage h ! k, k := storage h ! ((k - 1) div 2)]"
    using assms p by (simp add: js_set_update)
  have "heapUp h (Suc n) =
     (if 0 \<le> comparator h (storage h ! k) (storage h ! ((k - 1) div 2))
                 * (if mode h = MaxHeap then - 1 else 1) then h
      else if (k - 1) div 2 = 0
        then h\<lparr>storage := (storage h)[(k - 1) div 2 := storage h ! k,
                                         k := storage h ! ((k - 1) div 2)]\<rparr>
        else heapUp (h\<lparr>storage := (storage h)[(k - 1) div 2 := storage h ! k,
                                                k := storage h ! ((k - 1) div 2)]\<rparr>)
               ((k - 1) div 2))"
    by (subst heapUp.simps) (simp only: Let_def n [symmetric] g s)
  then show ?thesis using n by simp
qed

lemma up_result_moves:
  "\<not> 0 \<le> comparator h v w * (if mode h = MaxHeap then - 1 else 1) \<Longrightarrow>
   ordered (mode h) (comparator h) v w"
  by (cases "mode h") (simp_all add: ordered_def)

lemma up_result_stops:
  assumes "consistent_total_order S (comparator h)" "v \<in> S" "w \<in> S"
    and "0 \<le> comparator h v w * (if mode h = MaxHeap then - 1 else 1)"
  shows "ordered (mode h) (comparator h) w v"
proof (cases "mode h")
  case MinHeap
  then have "0 \<le> comparator h v w" using assms(4) by simp
  then have "comparator h w v \<le> 0" using cto_flip(2) [OF assms(1-3)] by simp
  then show ?thesis using MinHeap by (simp add: ordered_def)
next
  case MaxHeap
  then have "comparator h v w \<le> 0" using assms(4) by simp
  then have "0 \<le> comparator h w v" using cto_flip(1) [OF assms(1-3)] by simp
  then show ?thesis using MaxHeap by (simp add: ordered_def)
qed

lemma heapUp_keeps:
  "0 < k \<Longrightarrow> k < length (storage h) \<Longrightarrow>
   mode (heapUp h k) = mode h \<and> comparator (heapUp h k) = comparator h
   \<and> mset (storage (heapUp h k)) = mset (storage h)"
proof (induction k arbitrary: h rule: less_induct)
  case (less k)
  let ?p = "(k - 1) div 2"
  let ?h' = "h\<lparr>storage := (storage h)[?p := storage h ! k, k := storage h ! ?p]\<rparr>"
  have pk: "?p < k" using less.prems by linarith
  have ms: "mset (storage ?h') = mset (storage h)"
    using mset_swap [of k "storage h" ?p] pk less.prems by simp
  have len: "k < length (storage ?h')" using less.prems by simp
  consider "heapUp h k = h" | "heapUp h k = ?h'" | "0 < ?p" "heapUp h k = heapUp ?h' ?p"
    using heapUp_unfold [OF less.prems] by (auto split: if_splits)
  then show ?case
  proof cases
    case 1
    then show ?thesis by simp
  next
    case 2
    then show ?thesis using ms by simp
  next
    case 3
    have "?p < length (storage ?h')" using pk len by simp
    then show ?thesis using less.IH [OF pk 3(1), of ?h'] ms 3(2) by simp
  qed
qed

lemma heapUp_restores:
  assumes "consistent_total_order S (comparator h)" "set (storage h) \<subseteq> S"
    and "0 < k" "k < length (storage h)"
    and "except_up (ordered (mode h) (comparator h)) (storage h) k"
  shows "parent_ordered (ordered (mode h) (comparator h)) (storage (heapUp h k))"
  using assms
proof (induction k arbitrary: h rule: less_induct)
  case (less k)
  let ?le = "ordered (mode h) (comparator h)"
  let ?s = "storage h"
  let ?p = "(k - 1) div 2"
  let ?h' = "h\<lparr>storage := ?s[?p := ?s ! k, k := ?s ! ?p]\<rparr>"
  note c = less.prems(1) and s = less.prems(2) and k = less.prems(3,4) and e = less.prems(5)
  have pre: "preorder_on S ?le" using cto_preorder [OF c] .
  have inS: "\<And>i. i < length ?s \<Longrightarrow> ?s ! i \<in> S" using s nth_mem by blast
  have pk: "?p < k" using k by linarith
  have pn: "?p < length ?s" using pk k by simp
  show ?case
  proof (cases "0 \<le> comparator h (?s ! k) (?s ! ?p) * (if mode h = MaxHeap then - 1 else 1)")
    case True
    then have eq: "heapUp h k = h" using heapUp_unfold [OF k] by simp
    have "?le (?s ! ?p) (?s ! k)"
      using up_result_stops [OF c inS [OF k(2)] inS [OF pn] True] .
    then show ?thesis using up_stop [OF e] eq by simp
  next
    case False
    have lt: "?le (?s ! k) (?s ! ?p)" using up_result_moves [OF False] .
    have e': "except_up ?le (storage ?h') ?p"
      using up_swap [OF e k lt pre s] by simp
    have ms: "mset (storage ?h') = mset ?s"
      using mset_swap [of k ?s ?p] pk k by simp
    have s': "set (storage ?h') \<subseteq> S" using s mset_eq_setD [OF ms] by simp
    show ?thesis
    proof (cases "?p = 0")
      case p0: True
      then have eq: "heapUp h k = ?h'" using False heapUp_unfold [OF k] by simp
      have "parent_ordered ?le (storage ?h')" using e' p0 up_root by simp
      then show ?thesis using eq by simp
    next
      case pn0: False
      then have eq: "heapUp h k = heapUp ?h' ?p" using False heapUp_unfold [OF k] by simp
      have "parent_ordered (ordered (mode ?h') (comparator ?h')) (storage (heapUp ?h' ?p))"
        by (rule less.IH [OF pk]) (use c s' e' pn0 pn in simp_all)
      then show ?thesis using eq by simp
    qed
  qed
qed

subsection \<open>Insertion and removal\<close>

lemma heap_property_parent:
  "heap_property h = parent_ordered (ordered (mode h) (comparator h)) (storage h)"
proof
  assume hp: "heap_property h"
  show "parent_ordered (ordered (mode h) (comparator h)) (storage h)"
    unfolding parent_ordered_def
  proof (intro allI impI)
    fix i assume i: "0 < i \<and> i < length (storage h)"
    let ?p = "(i - 1) div 2"
    have "i = 2 * ?p + 1 \<or> i = 2 * ?p + 2" using i by linarith
    moreover have "?p < length (storage h)" using i by linarith
    ultimately show "ordered (mode h) (comparator h) (storage h ! ?p) (storage h ! i)"
      using hp i unfolding heap_property_def by metis
  qed
next
  assume po: "parent_ordered (ordered (mode h) (comparator h)) (storage h)"
  show "heap_property h"
    unfolding heap_property_def
  proof (intro allI impI conjI)
    fix i assume "2 * i + 1 < length (storage h)"
    moreover have "(2 * i + 1 - 1) div 2 = i" by simp
    ultimately show "ordered (mode h) (comparator h) (storage h ! i) (storage h ! (2 * i + 1))"
      using po unfolding parent_ordered_def by (metis zero_less_Suc Suc_eq_plus1)
  next
    fix i assume "2 * i + 2 < length (storage h)"
    moreover have "(2 * i + 2 - 1) div 2 = i" by simp
    moreover have "0 < 2 * i + 2" by simp
    ultimately show "ordered (mode h) (comparator h) (storage h ! i) (storage h ! (2 * i + 2))"
      using po unfolding parent_ordered_def by metis
  qed
qed

lemma insert_keeps:
  "mode (insert_heap h x) = mode h \<and> comparator (insert_heap h x) = comparator h
   \<and> mset (storage (insert_heap h x)) = add_mset x (mset (storage h))"
proof (cases "storage h = []")
  case True
  then show ?thesis by (simp add: insert_heap_def js_push_def)
next
  case False
  let ?h' = "h\<lparr>storage := storage h @ [x]\<rparr>"
  have n: "0 < length (storage h)" "length (storage h) < length (storage ?h')"
    using False by simp_all
  have eq: "insert_heap h x = heapUp ?h' (length (storage h))"
    using False by (simp add: insert_heap_def js_push_def Let_def)
  show ?thesis using heapUp_keeps [OF n] eq by simp
qed

lemma insert_restores:
  assumes c: "consistent_total_order S (comparator h)" and s: "set (storage h) \<subseteq> S" and x: "x \<in> S"
    and po: "parent_ordered (ordered (mode h) (comparator h)) (storage h)"
  shows "parent_ordered (ordered (mode h) (comparator h)) (storage (insert_heap h x))"
proof (cases "storage h = []")
  case True
  then show ?thesis by (simp add: insert_heap_def js_push_def parent_ordered_def)
next
  case False
  let ?le = "ordered (mode h) (comparator h)"
  let ?n = "length (storage h)"
  let ?h' = "h\<lparr>storage := storage h @ [x]\<rparr>"
  have n: "0 < ?n" "?n < length (storage ?h')" using False by simp_all
  have eq: "insert_heap h x = heapUp ?h' ?n"
    using False by (simp add: insert_heap_def js_push_def Let_def)
  have e: "except_up ?le (storage h @ [x]) ?n"
    unfolding except_up_def
  proof (intro conjI allI impI)
    fix i assume i: "0 < i \<and> i < length (storage h @ [x]) \<and> i \<noteq> ?n"
    then have il: "i < ?n" by simp
    then have pl: "(i - 1) div 2 < ?n" by linarith
    have "?le (storage h ! ((i - 1) div 2)) (storage h ! i)"
      using po i il unfolding parent_ordered_def by simp
    then show "?le ((storage h @ [x]) ! ((i - 1) div 2)) ((storage h @ [x]) ! i)"
      using il pl by (simp add: nth_append)
  next
    fix i assume i: "0 < i \<and> i < length (storage h @ [x]) \<and> (i - 1) div 2 = ?n \<and> 0 < ?n"
    then have False by (simp, linarith)
    then show "?le ((storage h @ [x]) ! ((?n - 1) div 2)) ((storage h @ [x]) ! i)" ..
  qed
  have "parent_ordered (ordered (mode ?h') (comparator ?h')) (storage (heapUp ?h' ?n))"
    by (rule heapUp_restores [of S]) (use c s x n e in simp_all)
  then show ?thesis using eq by simp
qed

lemma heapDown_leaf: "length (storage h) \<le> 2 * k + 1 \<Longrightarrow> heapDown h k = h"
  using heapDown_unfold [of h k] by simp

lemma remove_empty:
  "storage h = [] \<Longrightarrow> remove_heap h = (Undefined, h\<lparr>storage := [Undefined]\<rparr>)"
  by (simp add: remove_heap_def js_pop_def js_get_def js_set_def Let_def heapDown_leaf)

lemma remove_single:
  "storage h = [x] \<Longrightarrow> remove_heap h = (x, h\<lparr>storage := []\<rparr>)"
  by (simp add: remove_heap_def js_pop_def)

lemma list_ends:
  assumes "2 \<le> length (s :: 'a list)"
  shows "\<exists>y b x. s = y # b @ [x]"
proof -
  obtain y r where r: "s = y # r" using assms by (cases s) auto
  then have "r \<noteq> []" using assms by auto
  then obtain b x where "r = b @ [x]" by (metis rev_exhaust)
  then show ?thesis using r by blast
qed

lemma remove_general:
  assumes "storage h = y # b @ [x]"
  shows "remove_heap h = (y, heapDown (h\<lparr>storage := x # b\<rparr>) 0)"
proof -
  have p: "js_pop (storage h) = (x, y # b)"
    using assms by (simp add: js_pop_def butlast_append)
  have g: "js_get (storage h) 0 = y" using assms by (simp add: js_get_def)
  have s: "js_set (y # b) 0 x = x # b" by (simp add: js_set_def)
  have l: "length (storage h) \<noteq> 1" using assms by simp
  show ?thesis
    unfolding remove_heap_def by (simp only: l if_False Let_def p g s fst_conv snd_conv)
qed

lemma remove_keeps:
  assumes "storage h \<noteq> []"
  shows "fst (remove_heap h) = storage h ! 0 \<and> mode (snd (remove_heap h)) = mode h
     \<and> comparator (snd (remove_heap h)) = comparator h
     \<and> mset (storage (snd (remove_heap h))) = mset (storage h) - {#storage h ! 0#}"
proof (cases "length (storage h) = 1")
  case True
  then obtain x where x: "storage h = [x]" by (cases "storage h") auto
  show ?thesis using remove_single [OF x] x by simp
next
  case False
  then have "2 \<le> length (storage h)"
    using assms by (cases "storage h") (auto simp: Suc_le_eq)
  then obtain y b x where e: "storage h = y # b @ [x]" using list_ends by blast
  show ?thesis
    using remove_general [OF e] heapDown_keeps [of "h\<lparr>storage := x # b\<rparr>" 0] e by simp
qed

lemma remove_length:
  assumes "storage h \<noteq> []"
  shows "length (storage (snd (remove_heap h))) = length (storage h) - 1"
proof -
  have "storage h ! 0 \<in># mset (storage h)" using assms by simp
  then have "size (mset (storage h) - {#storage h ! 0#}) = size (mset (storage h)) - 1"
    by (simp add: size_Diff_singleton)
  moreover have "mset (storage (snd (remove_heap h))) = mset (storage h) - {#storage h ! 0#}"
    using remove_keeps [OF assms] by simp
  ultimately have "size (mset (storage (snd (remove_heap h)))) = size (mset (storage h)) - 1"
    by simp
  then show ?thesis by simp
qed

lemma nth_moved: "0 < j \<Longrightarrow> j < length (x # b) \<Longrightarrow> (x # b) ! j = (y # b @ [x]) ! j"
  by (cases j) (simp_all add: nth_append)

lemma remove_restores:
  assumes c: "consistent_total_order S (comparator h)" and s: "set (storage h) \<subseteq> S"
    and po: "parent_ordered (ordered (mode h) (comparator h)) (storage h)"
    and ne: "storage h \<noteq> []"
  shows "parent_ordered (ordered (mode h) (comparator h)) (storage (snd (remove_heap h)))"
proof (cases "length (storage h) = 1")
  case True
  then obtain x where x: "storage h = [x]" by (cases "storage h") auto
  show ?thesis using remove_single [OF x] by (simp add: parent_ordered_def)
next
  case False
  then have "2 \<le> length (storage h)"
    using ne by (cases "storage h") (auto simp: Suc_le_eq)
  then obtain y b x where st: "storage h = y # b @ [x]" using list_ends by blast
  let ?le = "ordered (mode h) (comparator h)"
  let ?s = "y # b @ [x]"
  let ?t = "x # b"
  let ?h' = "h\<lparr>storage := ?t\<rparr>"
  have nth: "\<And>j. 0 < j \<Longrightarrow> j < length ?t \<Longrightarrow> ?t ! j = ?s ! j"
    by (rule nth_moved)
  have e: "except_down ?le ?t 0"
    unfolding except_down_def
  proof (intro conjI allI impI)
    fix i assume i: "0 < i \<and> i < length ?t \<and> (i - 1) div 2 \<noteq> 0"
    then have i0: "0 < i" and it: "i < length ?t" by simp_all
    have il: "i < length ?s" using it by simp
    have p: "0 < (i - 1) div 2" "(i - 1) div 2 < length ?t" using i by linarith+
    have po': "parent_ordered ?le ?s" using po st by simp
    have "?le (?s ! ((i - 1) div 2)) (?s ! i)"
      using po' i0 il unfolding parent_ordered_def by blast
    then show "?le (?t ! ((i - 1) div 2)) (?t ! i)"
      by (simp only: nth [OF p] nth [OF i0 it])
  next
    fix i assume "0 < i \<and> i < length ?t \<and> (i - 1) div 2 = 0 \<and> (0::nat) < 0"
    then show "?le (?t ! ((0 - 1) div 2)) (?t ! i)" by simp
  qed
  have s': "set ?t \<subseteq> S" using s st by auto
  have "parent_ordered (ordered (mode ?h') (comparator ?h')) (storage (heapDown ?h' 0))"
    by (rule heapDown_restores [of S]) (use c s' e in simp_all)
  then show ?thesis using remove_general [OF st] by simp
qed

section \<open>Sequences of calls\<close>

text \<open>
  \<^verbatim>\<open>inputSequence.forEach(el => h.insert(el))\<close>, as \<^verbatim>\<open>binary-heap.spec.js\<close>
  fills a heap:
\<close>

definition inserts :: "heap \<Rightarrow> jsval list \<Rightarrow> heap" where
  "inserts h inputSequence = foldl insert_heap h inputSequence"

text \<open>
  \<open>k\<close> calls of \<^verbatim>\<open>remove\<close> in a row, with their results in the order of the
  calls.
\<close>

fun removals :: "nat \<Rightarrow> heap \<Rightarrow> jsval list \<times> heap" where
  "removals 0 h = ([], h)"
| "removals (Suc k) h =
     (fst (remove_heap h) # fst (removals k (snd (remove_heap h))),
      snd (removals k (snd (remove_heap h))))"

text \<open>\<open>k\<close> calls of \<^verbatim>\<open>remove\<close>, the results dropped.\<close>

fun removes :: "nat \<Rightarrow> heap \<Rightarrow> heap" where
  "removes 0 h = h"
| "removes (Suc k) h = removes k (snd (remove_heap h))"

text \<open>Any sequence of \<^verbatim>\<open>insert\<close> and \<^verbatim>\<open>remove\<close> calls.\<close>

datatype call = Insert jsval | Remove

fun apply_call :: "heap \<Rightarrow> call \<Rightarrow> heap" where
  "apply_call h (Insert element) = insert_heap h element"
| "apply_call h Remove = snd (remove_heap h)"

definition run :: "heap \<Rightarrow> call list \<Rightarrow> heap" where
  "run h calls = foldl apply_call h calls"

text \<open>
  The values that enter the storage when the calls run on a storage of \<open>n\<close>
  elements: the inserted ones, and \<^verbatim>\<open>undefined\<close> for every \<^verbatim>\<open>remove\<close> that finds the
  storage empty.
\<close>

fun entering :: "nat \<Rightarrow> call list \<Rightarrow> jsval list" where
  "entering n [] = []"
| "entering n (Insert element # calls) = element # entering (Suc n) calls"
| "entering n (Remove # calls) =
     (if n = 0 then Undefined # entering 1 calls else entering (n - 1) calls)"


subsection \<open>Sorted extraction\<close>

lemma Factory_ok:
  "Factory (Mode m) (Function c) = Inr h0 \<longleftrightarrow> h0 = \<lparr>mode = m, comparator = c, storage = []\<rparr>"
  by (auto simp: Factory_def init_def)

lemma inserts_keeps:
  "mode (inserts h xs) = mode h \<and> comparator (inserts h xs) = comparator h
   \<and> mset (storage (inserts h xs)) = mset (storage h) + mset xs"
  unfolding inserts_def
  by (induction xs arbitrary: h) (simp_all add: insert_keeps)

lemma inserts_restores:
  assumes "consistent_total_order S (comparator h)" "set (storage h) \<subseteq> S" "set xs \<subseteq> S"
    and "parent_ordered (ordered (mode h) (comparator h)) (storage h)"
  shows "parent_ordered (ordered (mode h) (comparator h)) (storage (inserts h xs))"
  using assms unfolding inserts_def
proof (induction xs arbitrary: h)
  case Nil
  then show ?case by simp
next
  case (Cons x xs)
  let ?h = "insert_heap h x"
  have k: "mode ?h = mode h" "comparator ?h = comparator h"
    "mset (storage ?h) = add_mset x (mset (storage h))" using insert_keeps [of h x] by simp_all
  have x: "x \<in> S" using Cons.prems(3) by simp
  have "set_mset (mset (storage ?h)) = insert x (set (storage h))" using k(3) by simp
  then have s: "set (storage ?h) \<subseteq> S" using Cons.prems(2) x by simp
  have po: "parent_ordered (ordered (mode ?h) (comparator ?h)) (storage ?h)"
    using insert_restores [OF Cons.prems(1,2) x Cons.prems(4)] k by simp
  have "parent_ordered (ordered (mode ?h) (comparator ?h)) (storage (foldl insert_heap ?h xs))"
    by (rule Cons.IH) (use Cons.prems k s po in simp_all)
  then show ?case using k by simp
qed

lemma removals_sorted:
  assumes "consistent_total_order S (comparator h)" "set (storage h) \<subseteq> S"
    and "parent_ordered (ordered (mode h) (comparator h)) (storage h)"
    and "n = length (storage h)"
  shows "mset (fst (removals n h)) = mset (storage h)
     \<and> sorted_wrt (ordered (mode h) (comparator h)) (fst (removals n h))
     \<and> storage (snd (removals n h)) = []"
  using assms
proof (induction n arbitrary: h)
  case 0
  then show ?case by simp
next
  case (Suc n)
  let ?le = "ordered (mode h) (comparator h)"
  let ?r = "remove_heap h"
  have ne: "storage h \<noteq> []" using Suc.prems(4) by auto
  have k: "fst ?r = storage h ! 0" "mode (snd ?r) = mode h" "comparator (snd ?r) = comparator h"
    "mset (storage (snd ?r)) = mset (storage h) - {#storage h ! 0#}"
    using remove_keeps [OF ne] by simp_all
  have root: "storage h ! 0 \<in> set (storage h)" using ne by simp
  have sub: "set (storage (snd ?r)) \<subseteq> set (storage h)"
    using k(4) by (metis in_diffD set_mset_mset subsetI)
  have len: "n = length (storage (snd ?r))" using remove_length [OF ne] Suc.prems(4) by simp
  have po: "parent_ordered (ordered (mode (snd ?r)) (comparator (snd ?r))) (storage (snd ?r))"
    using remove_restores [OF Suc.prems(1,2,3) ne] k by simp
  have ih: "mset (fst (removals n (snd ?r))) = mset (storage (snd ?r))
     \<and> sorted_wrt (ordered (mode (snd ?r)) (comparator (snd ?r))) (fst (removals n (snd ?r)))
     \<and> storage (snd (removals n (snd ?r))) = []"
    by (rule Suc.IH) (use Suc.prems k sub po len in auto)
  have "set (fst (removals n (snd ?r))) \<subseteq> set (storage h)"
    using ih sub by (metis mset_eq_setD)
  then have least: "\<forall>y\<in>set (fst (removals n (snd ?r))). ?le (storage h ! 0) y"
    using root_least [OF Suc.prems(3) cto_preorder [OF Suc.prems(1)] Suc.prems(2)]
    by (metis in_set_conv_nth subsetD)
  have m: "mset (storage h ! 0 # fst (removals n (snd ?r))) = mset (storage h)"
    using ih k(4) root by simp
  show ?case using ih least m k by simp
qed

subsection \<open>Any sequence of calls\<close>

lemma run_restores:
  assumes "consistent_total_order S (comparator h)" "set (storage h) \<subseteq> S"
    and "set (entering (length (storage h)) calls) \<subseteq> S"
    and "parent_ordered (ordered (mode h) (comparator h)) (storage h)"
  shows "mode (run h calls) = mode h \<and> comparator (run h calls) = comparator h
     \<and> parent_ordered (ordered (mode h) (comparator h)) (storage (run h calls))"
  using assms unfolding run_def
proof (induction calls arbitrary: h)
  case Nil
  then show ?case by simp
next
  case (Cons a calls)
  let ?h = "apply_call h a"
  have step: "mode ?h = mode h \<and> comparator ?h = comparator h \<and> set (storage ?h) \<subseteq> S
      \<and> set (entering (length (storage ?h)) calls) \<subseteq> S
      \<and> parent_ordered (ordered (mode h) (comparator h)) (storage ?h)"
  proof (cases a)
    case (Insert x)
    have k: "mode (insert_heap h x) = mode h" "comparator (insert_heap h x) = comparator h"
      "mset (storage (insert_heap h x)) = add_mset x (mset (storage h))"
      using insert_keeps [of h x] by simp_all
    have x: "x \<in> S" using Cons.prems(3) Insert by simp
    have "set_mset (mset (storage (insert_heap h x))) = insert x (set (storage h))"
      using k(3) by simp
    then have s: "set (storage (insert_heap h x)) \<subseteq> S" using Cons.prems(2) x by simp
    have "size (mset (storage (insert_heap h x))) = Suc (size (mset (storage h)))"
      using k(3) by simp
    then have l: "length (storage (insert_heap h x)) = Suc (length (storage h))" by simp
    have e: "set (entering (length (storage (insert_heap h x))) calls) \<subseteq> S"
      using Cons.prems(3) Insert l by simp
    show ?thesis
      using Insert k s e insert_restores [OF Cons.prems(1,2) x Cons.prems(4)] by simp
  next
    case Remove
    show ?thesis
    proof (cases "storage h = []")
      case True
      have u: "Undefined \<in> S" and e: "set (entering 1 calls) \<subseteq> S"
        using Cons.prems(3) Remove True by simp_all
      show ?thesis
        using Remove remove_empty [OF True] u e by (simp add: parent_ordered_def)
    next
      case False
      have k: "mode (snd (remove_heap h)) = mode h" "comparator (snd (remove_heap h)) = comparator h"
        "mset (storage (snd (remove_heap h))) = mset (storage h) - {#storage h ! 0#}"
        using remove_keeps [OF False] by simp_all
      have "set (storage (snd (remove_heap h))) \<subseteq> set (storage h)"
        using k(3) by (metis in_diffD set_mset_mset subsetI)
      then have s: "set (storage (snd (remove_heap h))) \<subseteq> S" using Cons.prems(2) by blast
      have e: "set (entering (length (storage (snd (remove_heap h)))) calls) \<subseteq> S"
        using Cons.prems(3) Remove False remove_length [OF False] by simp
      show ?thesis
        using Remove k s e remove_restores [OF Cons.prems(1,2,4) False] by simp
    qed
  qed
  have "mode (foldl apply_call ?h calls) = mode ?h \<and> comparator (foldl apply_call ?h calls) = comparator ?h
     \<and> parent_ordered (ordered (mode ?h) (comparator ?h)) (storage (foldl apply_call ?h calls))"
    by (rule Cons.IH) (use Cons.prems(1) step in simp_all)
  then show ?case using step by simp
qed

text \<open>
  The heap property after any calls, for a comparator that is a consistent total
  order on every value that enters the storage.
\<close>

lemma run_keeps_heap_property:
  assumes "Factory (Mode m) (Function c) = Inr h0"
    and "consistent_total_order (set (entering 0 calls)) c"
  shows "\<forall>i. (2 * i + 1 < length (storage (run h0 calls)) \<longrightarrow>
               (if m = MinHeap
                then c (storage (run h0 calls) ! i) (storage (run h0 calls) ! (2 * i + 1)) \<le> 0
                else c (storage (run h0 calls) ! i) (storage (run h0 calls) ! (2 * i + 1)) \<ge> 0))
           \<and> (2 * i + 2 < length (storage (run h0 calls)) \<longrightarrow>
               (if m = MinHeap
                then c (storage (run h0 calls) ! i) (storage (run h0 calls) ! (2 * i + 2)) \<le> 0
                else c (storage (run h0 calls) ! i) (storage (run h0 calls) ! (2 * i + 2)) \<ge> 0))"
proof -
  have h0: "h0 = \<lparr>mode = m, comparator = c, storage = []\<rparr>" using assms(1) Factory_ok by simp
  have r: "mode (run h0 calls) = mode h0 \<and> comparator (run h0 calls) = comparator h0
     \<and> parent_ordered (ordered (mode h0) (comparator h0)) (storage (run h0 calls))"
    by (rule run_restores [of "set (entering 0 calls)"])
       (use assms(2) h0 in \<open>simp_all add: parent_ordered_def\<close>)
  then have hp: "heap_property (run h0 calls)"
    using heap_property_parent [of "run h0 calls"] by simp
  have mc: "mode (run h0 calls) = m" "comparator (run h0 calls) = c" using r h0 by simp_all
  show ?thesis
  proof (intro allI conjI impI)
    fix i assume a: "2 * i + 1 < length (storage (run h0 calls))"
    then have "i < length (storage (run h0 calls))" by simp
    then have "ordered m c (storage (run h0 calls) ! i) (storage (run h0 calls) ! (2 * i + 1))"
      using hp a mc unfolding heap_property_def by blast
    then show "if m = MinHeap
        then c (storage (run h0 calls) ! i) (storage (run h0 calls) ! (2 * i + 1)) \<le> 0
        else c (storage (run h0 calls) ! i) (storage (run h0 calls) ! (2 * i + 1)) \<ge> 0"
      by (simp add: ordered_def)
  next
    fix i assume a: "2 * i + 2 < length (storage (run h0 calls))"
    then have "i < length (storage (run h0 calls))" by simp
    then have "ordered m c (storage (run h0 calls) ! i) (storage (run h0 calls) ! (2 * i + 2))"
      using hp a mc unfolding heap_property_def by blast
    then show "if m = MinHeap
        then c (storage (run h0 calls) ! i) (storage (run h0 calls) ! (2 * i + 2)) \<le> 0
        else c (storage (run h0 calls) ! i) (storage (run h0 calls) ! (2 * i + 2)) \<ge> 0"
      by (simp add: ordered_def)
  qed
qed

text \<open>
  A comparator a caller may pass: \<^verbatim>\<open>(a, b) => a < b ? -1 : (a === b ? 0 : 1)\<close>. It is
  a consistent total order on the numbers.
\<close>

definition lessOrSame :: "jsval \<Rightarrow> jsval \<Rightarrow> int" where
  "lessOrSame a b = (if js_lt a b then - 1 else if a = b then 0 else 1)"

lemma lessOrSame_numbers: "consistent_total_order (range Number) lessOrSame"
  unfolding consistent_total_order_def
  by (auto simp: lessOrSame_def)

lemma removes_length:
  "k \<le> length (storage h) \<Longrightarrow> length (storage (removes k h)) = length (storage h) - k"
proof (induction k arbitrary: h)
  case 0
  then show ?case by simp
next
  case (Suc k)
  then have ne: "storage h \<noteq> []" by auto
  have l: "length (storage (snd (remove_heap h))) = length (storage h) - 1"
    using remove_length [OF ne] .
  then have "k \<le> length (storage (snd (remove_heap h)))" using Suc.prems by simp
  then show ?case using Suc.IH [of "snd (remove_heap h)"] l by simp
qed

lemma insert_length: "length (storage (insert_heap h x)) = length (storage h) + 1"
proof -
  have "size (mset (storage (insert_heap h x))) = size (add_mset x (mset (storage h)))"
    using insert_keeps [of h x] by simp
  then show ?thesis by simp
qed


section \<open>The sifts in the words of the specification\<close>

text \<open>
  A second rendering of \<^verbatim>\<open>insert\<close> and \<^verbatim>\<open>remove\<close>, written from the prose of the
  specification and not from the code, to compare the code with.

  Sift-up: at index \<open>i > 0\<close> the parent is \<open>\<lfloor>(i - 1) / 2\<rfloor>\<close>; the comparator is applied
  to the value and its parent and the result negated in max mode; a result \<open>\<ge> 0\<close> stops
  the sift, otherwise the two are swapped and the sift goes on from the parent; index
  \<open>0\<close> ends it.
\<close>

function spec_sift_up :: "heap \<Rightarrow> nat \<Rightarrow> heap" where
  "spec_sift_up h i =
     (if i = 0 then h
      else
        let parent = (i - 1) div 2;
            result = comparator h (storage h ! i) (storage h ! parent);
            adjusted = (if mode h = MaxHeap then - result else result)
        in if adjusted \<ge> 0 then h
           else spec_sift_up
                  (h\<lparr>storage := (storage h)[parent := storage h ! i, i := storage h ! parent]\<rparr>)
                  parent)"
  by pat_completeness auto
termination
  by (relation "measure (\<lambda>(h, i). i)") auto

declare spec_sift_up.simps [simp del]

text \<open>Insertion appends the element and sifts it up from the last index.\<close>

definition spec_insert :: "heap \<Rightarrow> jsval \<Rightarrow> heap" where
  "spec_insert h element =
     spec_sift_up (h\<lparr>storage := storage h @ [element]\<rparr>) (length (storage h))"

text \<open>
  Sift-down: the children of \<open>i\<close> are \<open>2 i + 1\<close> and \<open>2 i + 2\<close>. With both in bounds the
  child compared against is, in max mode, the left one if the comparator ranks it
  higher than or equal to the right one and the right one otherwise; in min mode the
  left one if it is the smaller and the right one otherwise. With only the left one in
  bounds it is the left one.
\<close>

definition spec_child :: "heap \<Rightarrow> nat \<Rightarrow> nat" where
  "spec_child h i =
     (let left = 2 * i + 1; right = 2 * i + 2
      in if right < length (storage h)
         then (if mode h = MaxHeap
               then (if comparator h (storage h ! left) (storage h ! right) \<ge> 0
                     then left else right)
               else (if comparator h (storage h ! left) (storage h ! right) < 0
                     then left else right))
         else left)"

lemma spec_child_range:
  "i < spec_child h i \<and> (2 * i + 1 < length (storage h) \<longrightarrow> spec_child h i < length (storage h))"
  by (simp add: spec_child_def Let_def)

text \<open>
  No left child ends the sift. Otherwise the comparator is applied to the value and
  the chosen child and the result negated in min mode; a result \<open>\<ge> 0\<close> stops the sift,
  otherwise the two are swapped and the sift goes on from the child.
\<close>

function spec_sift_down :: "heap \<Rightarrow> nat \<Rightarrow> heap" where
  "spec_sift_down h i =
     (if 2 * i + 1 \<ge> length (storage h) then h
      else
        let chosen = spec_child h i;
            result = comparator h (storage h ! i) (storage h ! chosen);
            adjusted = (if mode h = MinHeap then - result else result)
        in if adjusted \<ge> 0 then h
           else spec_sift_down
                  (h\<lparr>storage := (storage h)[chosen := storage h ! i, i := storage h ! chosen]\<rparr>)
                  chosen)"
  by pat_completeness auto
termination
proof (relation "measure (\<lambda>(h, i). length (storage h) - i)", goal_cases)
  case 1
  show ?case by simp
next
  case (2 h i chosen result adjusted)
  have "i < spec_child h i" "spec_child h i < length (storage h)"
    using 2(1) spec_child_range [of i h] by simp_all
  then have "length (storage h) - spec_child h i < length (storage h) - i" by linarith
  then show ?case using 2(2) by simp
qed

declare spec_sift_down.simps [simp del]

text \<open>
  Removal: a storage of exactly one element is emptied and the element returned;
  otherwise the root is kept aside, the last element takes its place, the storage is
  one shorter, and the new root is sifted down.
\<close>

definition spec_remove :: "heap \<Rightarrow> jsval \<times> heap" where
  "spec_remove h =
     (if length (storage h) = 1 then (storage h ! 0, h\<lparr>storage := []\<rparr>)
      else
        let root = storage h ! 0;
            moved = (butlast (storage h))[0 := last (storage h)]
        in (root, spec_sift_down (h\<lparr>storage := moved\<rparr>) 0))"

lemma sift_up_eq:
  "0 < k \<Longrightarrow> k < length (storage h) \<Longrightarrow> heapUp h k = spec_sift_up h k"
proof (induction k arbitrary: h rule: less_induct)
  case (less k)
  let ?p = "(k - 1) div 2"
  let ?h' = "h\<lparr>storage := (storage h)[?p := storage h ! k, k := storage h ! ?p]\<rparr>"
  have pk: "?p < k" using less.prems by linarith
  have k0: "k \<noteq> 0" using less.prems by simp
  have adj: "(0 \<le> (if mode h = MaxHeap then - comparator h (storage h ! k) (storage h ! ?p)
                    else comparator h (storage h ! k) (storage h ! ?p)))
        = (0 \<le> comparator h (storage h ! k) (storage h ! ?p) * (if mode h = MaxHeap then - 1 else 1))"
    by simp
  have sp: "spec_sift_up h k =
      (if 0 \<le> comparator h (storage h ! k) (storage h ! ?p) * (if mode h = MaxHeap then - 1 else 1)
       then h else spec_sift_up ?h' ?p)"
    by (subst spec_sift_up.simps) (simp only: k0 if_False Let_def adj)
  show ?case
  proof (cases "0 \<le> comparator h (storage h ! k) (storage h ! ?p) * (if mode h = MaxHeap then - 1 else 1)")
    case True
    then show ?thesis using heapUp_unfold [OF less.prems] sp by simp
  next
    case False
    show ?thesis
    proof (cases "?p = 0")
      case p0: True
      have "spec_sift_up ?h' 0 = ?h'" by (subst spec_sift_up.simps) simp
      then show ?thesis using False p0 heapUp_unfold [OF less.prems] sp by simp
    next
      case pn: False
      have "heapUp ?h' ?p = spec_sift_up ?h' ?p"
        by (rule less.IH [OF pk]) (use pn pk less.prems in simp_all)
      then show ?thesis using False pn heapUp_unfold [OF less.prems] sp by simp
    qed
  qed
qed

lemma comparisonChild_spec:
  "2 * k + 1 < length (storage h) \<Longrightarrow> fst (comparisonChild h k) = spec_child h k"
  by (cases "mode h") (auto simp: comparisonChild_def spec_child_def Let_def js_get_nth)

lemma sift_down_eq: "heapDown h k = spec_sift_down h k"
proof (induction "length (storage h) - k" arbitrary: h k rule: less_induct)
  case less
  show ?case
  proof (cases "length (storage h) \<le> 2 * k + 1")
    case True
    have "spec_sift_down h k = h" using True by (subst spec_sift_down.simps) simp
    then show ?thesis using heapDown_leaf [OF True] by simp
  next
    case False
    then have l: "2 * k + 1 < length (storage h)" by simp
    let ?ci = "spec_child h k"
    let ?h' = "h\<lparr>storage := (storage h)[?ci := storage h ! k, k := storage h ! ?ci]\<rparr>"
    have ci: "fst (comparisonChild h k) = ?ci" using comparisonChild_spec [OF l] .
    have r: "k < ?ci" "?ci < length (storage h)" using spec_child_range [of k h] l by simp_all
    have adj: "(0 \<le> (if mode h = MinHeap then - comparator h (storage h ! k) (storage h ! ?ci)
                      else comparator h (storage h ! k) (storage h ! ?ci)))
          = ordered (mode h) (comparator h) (storage h ! k) (storage h ! ?ci)"
      by (cases "mode h") (simp_all add: ordered_def)
    have sp: "spec_sift_down h k =
        (if ordered (mode h) (comparator h) (storage h ! k) (storage h ! ?ci) then h
         else spec_sift_down ?h' ?ci)"
      by (subst spec_sift_down.simps) (simp only: False if_False Let_def adj)
    have hd: "heapDown h k =
        (if ordered (mode h) (comparator h) (storage h ! k) (storage h ! ?ci) then h
         else heapDown ?h' ?ci)"
      using heapDown_unfold [of h k] False ci by simp
    have m: "length (storage ?h') - ?ci < length (storage h) - k" using r by simp
    show ?thesis using hd sp less.hyps [OF m] by simp
  qed
qed

subsection \<open>Arguments of the constructor\<close>

text \<open>
  \<^verbatim>\<open>-1 === [MinHeap, MaxHeap].indexOf(mode)\<close> fails for a recognised mode, and
  \<^verbatim>\<open>'function' !== typeof comparator\<close> fails for a callable comparator.
\<close>

fun recognised_mode :: "jsarg \<Rightarrow> bool" where
  "recognised_mode (Mode md) = True"
| "recognised_mode _ = False"

fun callable :: "jsarg \<Rightarrow> bool" where
  "callable (Function f) = True"
| "callable _ = False"

section \<open>The claims\<close>

text \<open>
  C1. For either mode and every comparator that is a consistent total order on the
  inserted elements, after the elements of any list \<open>xs\<close> are inserted one at a time
  into a heap just built by \<^verbatim>\<open>Factory\<close>, the first \<open>length xs\<close> calls of \<^verbatim>\<open>remove\<close>
  return exactly the inserted elements, duplicates kept, in ascending order of the
  comparator in a min heap and in descending order in a max heap; they leave the
  storage empty, and the call after them returns \<^verbatim>\<open>undefined\<close>, the value \<^verbatim>\<open>remove\<close>
  gives on an empty heap.
\<close>

theorem sorted_extraction:
  assumes "Factory (Mode m) (Function c) = Inr h0"
    and "consistent_total_order (set xs) c"
  shows "mset (fst (removals (length xs) (inserts h0 xs))) = mset xs
     \<and> (m = MinHeap \<longrightarrow>
          sorted_wrt (\<lambda>a b. c a b \<le> 0) (fst (removals (length xs) (inserts h0 xs))))
     \<and> (m = MaxHeap \<longrightarrow>
          sorted_wrt (\<lambda>a b. c a b \<ge> 0) (fst (removals (length xs) (inserts h0 xs))))
     \<and> storage (snd (removals (length xs) (inserts h0 xs))) = []
     \<and> fst (remove_heap (snd (removals (length xs) (inserts h0 xs)))) = Undefined"
proof -
  let ?h = "inserts h0 xs"
  let ?r = "removals (length xs) ?h"
  have h0: "h0 = \<lparr>mode = m, comparator = c, storage = []\<rparr>" using assms(1) Factory_ok by simp
  have k: "mode ?h = m" "comparator ?h = c" "mset (storage ?h) = mset xs"
    using inserts_keeps [of h0 xs] h0 by simp_all
  have s: "set (storage ?h) = set xs" using k(3) by (rule mset_eq_setD)
  have l: "length xs = length (storage ?h)" using k(3) by (metis size_mset)
  have "parent_ordered (ordered (mode h0) (comparator h0)) (storage (inserts h0 xs))"
    by (rule inserts_restores [of "set xs"]) (use assms(2) h0 in \<open>simp_all add: parent_ordered_def\<close>)
  then have po: "parent_ordered (ordered (mode ?h) (comparator ?h)) (storage ?h)"
    using k h0 by simp
  have "mset (fst ?r) = mset (storage ?h)
     \<and> sorted_wrt (ordered (mode ?h) (comparator ?h)) (fst ?r)
     \<and> storage (snd ?r) = []"
    by (rule removals_sorted [of "set xs"]) (use assms k s po l in simp_all)
  then have r: "mset (fst ?r) = mset xs" "sorted_wrt (ordered m c) (fst ?r)"
    "storage (snd ?r) = []"
    using k by auto
  have u: "fst (remove_heap (snd ?r)) = Undefined" using remove_empty [OF r(3)] by simp
  have "ordered MinHeap c = (\<lambda>a b. c a b \<le> 0)" "ordered MaxHeap c = (\<lambda>a b. c a b \<ge> 0)"
    by (simp_all add: ordered_def fun_eq_iff)
  then show ?thesis using r u by auto
qed

text \<open>The elements \<open>5, 0, 19, 0\<close> in a min heap with the default comparator.\<close>

theorem sorted_extraction_witness:
  "Factory (Mode MinHeap) (Function naivePrimitiveComparator)
     = Inr \<lparr>mode = MinHeap, comparator = naivePrimitiveComparator, storage = []\<rparr>
   \<and> consistent_total_order (set [Number 5, Number 0, Number 19, Number 0])
        naivePrimitiveComparator
   \<and> fst (removals (length [Number 5, Number 0, Number 19, Number 0])
            (inserts \<lparr>mode = MinHeap, comparator = naivePrimitiveComparator, storage = []\<rparr>
               [Number 5, Number 0, Number 19, Number 0]))
       = [Number 0, Number 0, Number 5, Number 19]
   \<and> sorted_wrt (\<lambda>a b. naivePrimitiveComparator a b \<le> 0)
        (fst (removals (length [Number 5, Number 0, Number 19, Number 0])
                (inserts \<lparr>mode = MinHeap, comparator = naivePrimitiveComparator, storage = []\<rparr>
                   [Number 5, Number 0, Number 19, Number 0])))"
proof -
  have f: "Factory (Mode MinHeap) (Function naivePrimitiveComparator)
     = Inr \<lparr>mode = MinHeap, comparator = naivePrimitiveComparator, storage = []\<rparr>"
    by (simp add: Factory_def init_def)
  have c: "consistent_total_order (set [Number 5, Number 0, Number 19, Number 0])
        naivePrimitiveComparator"
    by (simp add: consistent_total_order_def naivePrimitiveComparator_def)
  have d: "fst (removals (length [Number 5, Number 0, Number 19, Number 0])
            (inserts \<lparr>mode = MinHeap, comparator = naivePrimitiveComparator, storage = []\<rparr>
               [Number 5, Number 0, Number 19, Number 0]))
       = [Number 0, Number 0, Number 5, Number 19]"
    by code_simp
  show ?thesis
    using f c d sorted_extraction [OF f c] by simp
qed

text \<open>
  C2. The claim asks for the heap property after any sequence of \<^verbatim>\<open>insert\<close> and
  \<^verbatim>\<open>remove\<close> calls. With the comparator \<open>lessOrSame\<close>, a consistent total order on
  the numbers, a \<^verbatim>\<open>remove\<close> on the new min heap followed by \<^verbatim>\<open>insert(5)\<close> leaves the
  storage \<open>[undefined, 5]\<close>, where the comparator of the root and its left child is
  \<open>1\<close>, not \<open>\<le> 0\<close>.
\<close>

theorem heap_property_lost_after_remove_on_empty:
  "Factory (Mode MinHeap) (Function lessOrSame)
     = Inr \<lparr>mode = MinHeap, comparator = lessOrSame, storage = []\<rparr>
   \<and> lessOrSame (Number 5) (Number 5) = 0
   \<and> storage (run \<lparr>mode = MinHeap, comparator = lessOrSame, storage = []\<rparr>
                [Remove, Insert (Number 5)]) = [Undefined, Number 5]
   \<and> lessOrSame Undefined (Number 5) = 1
   \<and> lessOrSame
         (storage (run \<lparr>mode = MinHeap, comparator = lessOrSame, storage = []\<rparr>
                     [Remove, Insert (Number 5)]) ! 0)
         (storage (run \<lparr>mode = MinHeap, comparator = lessOrSame, storage = []\<rparr>
                     [Remove, Insert (Number 5)]) ! (2 * 0 + 1)) > 0"
proof -
  have s: "storage (run \<lparr>mode = MinHeap, comparator = lessOrSame, storage = []\<rparr>
                [Remove, Insert (Number 5)]) = [Undefined, Number 5]"
    by code_simp
  show ?thesis using s by (simp add: Factory_def init_def lessOrSame_def)
qed

text \<open>
  C3. The claim asks that \<^verbatim>\<open>remove\<close> on an empty heap leave the storage as it is. On
  the heap that \<^verbatim>\<open>Factory()\<close> builds, the code leaves a storage of one element,
  \<^verbatim>\<open>undefined\<close>, and the next \<^verbatim>\<open>peek\<close> no longer answers \<^verbatim>\<open>false\<close>.
\<close>

theorem remove_on_new_heap_changes_storage:
  "Factory (Value Undefined) (Value Undefined)
     = Inr \<lparr>mode = MinHeap, comparator = naivePrimitiveComparator, storage = []\<rparr>
   \<and> storage (snd (remove_heap \<lparr>mode = MinHeap, comparator = naivePrimitiveComparator,
                                  storage = []\<rparr>)) = [Undefined]
   \<and> storage (snd (remove_heap \<lparr>mode = MinHeap, comparator = naivePrimitiveComparator,
                                  storage = []\<rparr>))
       \<noteq> storage \<lparr>mode = MinHeap, comparator = naivePrimitiveComparator, storage = []\<rparr>
   \<and> fst (peek (snd (remove_heap \<lparr>mode = MinHeap, comparator = naivePrimitiveComparator,
                                    storage = []\<rparr>))) \<noteq> Boolean False"
  by (simp add: Factory_def init_def remove_empty peek_def js_get_def)

text \<open>
  C4. On a heap just built by \<^verbatim>\<open>Factory\<close>, \<^verbatim>\<open>peek\<close> answers \<^verbatim>\<open>false\<close>, \<^verbatim>\<open>remove\<close>
  answers \<^verbatim>\<open>undefined\<close>, and neither answer is truthy: both signal the empty heap by
  a falsy value.
\<close>

theorem empty_heap_sentinels:
  assumes "Factory m c = Inr h0"
  shows "fst (peek h0) = Boolean False
     \<and> fst (remove_heap h0) = Undefined
     \<and> \<not> truthy (fst (peek h0)) \<and> \<not> truthy (fst (remove_heap h0))"
proof -
  have "storage h0 = []"
    using assms
    by (auto simp: Factory_def init_def split: jsarg.splits jsval.splits)
  then show ?thesis using remove_empty [of h0] by (simp add: peek_def)
qed

text \<open>The heap of \<^verbatim>\<open>Factory()\<close>.\<close>

theorem empty_heap_sentinels_witness:
  "Factory (Value Undefined) (Value Undefined)
     = Inr \<lparr>mode = MinHeap, comparator = naivePrimitiveComparator, storage = []\<rparr>
   \<and> fst (peek \<lparr>mode = MinHeap, comparator = naivePrimitiveComparator, storage = []\<rparr>)
       = Boolean False
   \<and> \<not> truthy (fst (remove_heap \<lparr>mode = MinHeap, comparator = naivePrimitiveComparator,
                                    storage = []\<rparr>))"
proof -
  have f: "Factory (Value Undefined) (Value Undefined)
     = Inr \<lparr>mode = MinHeap, comparator = naivePrimitiveComparator, storage = []\<rparr>"
    by (simp add: Factory_def init_def)
  show ?thesis using f empty_heap_sentinels [OF f] by simp
qed

text \<open>
  C5 (as amended). \<^verbatim>\<open>init\<close> fails with \<open>InvalidMode\<close> exactly when the mode argument
  is not one of the two recognised values; it fails with \<open>InvalidComparator\<close> exactly
  when the mode is recognised and the comparator argument is not callable; with a
  recognised mode and a callable comparator it gives a heap with empty storage.
  \<^verbatim>\<open>Factory\<close> hands its arguments to \<^verbatim>\<open>init\<close>, an omitted or \<^verbatim>\<open>undefined\<close> one replaced
  by its default, so that \<^verbatim>\<open>Factory()\<close> gives a min heap with the default comparator.
\<close>

theorem construction_validation:
  "(init m c = Inl InvalidMode \<longleftrightarrow> \<not> recognised_mode m)
   \<and> (init m c = Inl InvalidComparator \<longleftrightarrow> recognised_mode m \<and> \<not> callable c)
   \<and> (init (Mode md) (Function f) = Inr \<lparr>mode = md, comparator = f, storage = []\<rparr>)
   \<and> Factory m c = init (if m = Value Undefined then Mode MinHeap else m)
                        (if c = Value Undefined then Function naivePrimitiveComparator else c)
   \<and> Factory (Value Undefined) (Value Undefined)
       = Inr \<lparr>mode = MinHeap, comparator = naivePrimitiveComparator, storage = []\<rparr>"
proof -
  have 1: "init m c = Inl InvalidMode \<longleftrightarrow> \<not> recognised_mode m"
    by (cases m; cases c) (simp_all add: init_def)
  have 2: "init m c = Inl InvalidComparator \<longleftrightarrow> recognised_mode m \<and> \<not> callable c"
    by (cases m; cases c) (simp_all add: init_def)
  have 3: "Factory m c = init (if m = Value Undefined then Mode MinHeap else m)
                        (if c = Value Undefined then Function naivePrimitiveComparator else c)"
    by (simp add: Factory_def split: jsarg.splits jsval.splits)
  have 4: "init (Mode md) (Function f) = Inr \<lparr>mode = md, comparator = f, storage = []\<rparr>"
    by (simp add: init_def)
  have 5: "Factory (Value Undefined) (Value Undefined)
       = Inr \<lparr>mode = MinHeap, comparator = naivePrimitiveComparator, storage = []\<rparr>"
    by (simp add: Factory_def init_def)
  show ?thesis using 1 2 3 4 5 by blast
qed

text \<open>The two failing constructions of the tests, and \<^verbatim>\<open>Factory()\<close>.\<close>

theorem construction_validation_witness:
  "init (Value (String ''foo'')) (Function naivePrimitiveComparator) = Inl InvalidMode
   \<and> init (Mode MinHeap) (Value (String ''nope'')) = Inl InvalidComparator
   \<and> Factory (Value Undefined) (Value Undefined)
       = Inr \<lparr>mode = MinHeap, comparator = naivePrimitiveComparator, storage = []\<rparr>"
  using construction_validation [of "Value (String ''foo'')" "Function naivePrimitiveComparator"]
    construction_validation [of "Mode MinHeap" "Value (String ''nope'')"]
  by simp

text \<open>
  C5 as stated fails when both arguments are invalid: the comparator \<^verbatim>\<open>'nope'\<close> is
  not callable, yet with the mode \<^verbatim>\<open>'foo'\<close> the error is \<open>InvalidMode\<close>, since the mode
  is checked first.
\<close>

theorem construction_validation_counterexample:
  "\<not> callable (Value (String ''nope''))
   \<and> Factory (Value (String ''foo'')) (Value (String ''nope'')) = Inl InvalidMode
   \<and> Factory (Value (String ''foo'')) (Value (String ''nope'')) \<noteq> Inl InvalidComparator"
  by (simp add: Factory_def init_def)



text \<open>
  C7. After inserting \<open>n\<close> elements into a heap just built by \<^verbatim>\<open>Factory\<close> and then
  calling \<^verbatim>\<open>remove\<close> \<open>k \<le> n\<close> times, the storage holds exactly \<open>n - k\<close> elements; every
  \<^verbatim>\<open>insert\<close> makes the storage one longer, and every \<^verbatim>\<open>remove\<close> on a storage that is
  not empty makes it one shorter.
\<close>

theorem size_conservation:
  assumes "Factory (Mode m) (Function c) = Inr h0" and "k \<le> length xs"
  shows "length (storage (removes k (inserts h0 xs))) = length xs - k
     \<and> (\<forall>h x. length (storage (insert_heap h x)) = length (storage h) + 1)
     \<and> (\<forall>h. storage h \<noteq> [] \<longrightarrow>
            length (storage (snd (remove_heap h))) = length (storage h) - 1)"
proof -
  have h0: "h0 = \<lparr>mode = m, comparator = c, storage = []\<rparr>" using assms(1) Factory_ok by simp
  have "size (mset (storage (inserts h0 xs))) = size (mset xs)"
    using inserts_keeps [of h0 xs] h0 by simp
  then have l: "length (storage (inserts h0 xs)) = length xs" by simp
  then have "length (storage (removes k (inserts h0 xs))) = length xs - k"
    using removes_length [of k "inserts h0 xs"] assms(2) by simp
  then show ?thesis using insert_length remove_length by blast
qed

text \<open>Three inserts and two removes leave one element.\<close>

theorem size_conservation_witness:
  "Factory (Mode MinHeap) (Function naivePrimitiveComparator)
     = Inr \<lparr>mode = MinHeap, comparator = naivePrimitiveComparator, storage = []\<rparr>
   \<and> (2::nat) \<le> length [Number 5, Number 1, Number 19]
   \<and> length (storage (removes 2 (inserts \<lparr>mode = MinHeap, comparator = naivePrimitiveComparator,
                                              storage = []\<rparr> [Number 5, Number 1, Number 19]))) = 1"
proof -
  have f: "Factory (Mode MinHeap) (Function naivePrimitiveComparator)
     = Inr \<lparr>mode = MinHeap, comparator = naivePrimitiveComparator, storage = []\<rparr>"
    by (simp add: Factory_def init_def)
  have k: "(2::nat) \<le> length [Number 5, Number 1, Number 19]" by simp
  show ?thesis using f k size_conservation [OF f k] by simp
qed

text \<open>
  C8. \<^verbatim>\<open>insert\<close> is the insertion of the specification: append, then sift up with
  parent \<open>\<lfloor>(i - 1) / 2\<rfloor>\<close>, the comparator result negated in max mode, a stop at a
  result \<open>\<ge> 0\<close>, a swap and a step to the parent otherwise, and the end at index \<open>0\<close>.
  In particular an element that ties with its parent stays where it was appended.
\<close>

theorem insert_is_append_then_sift_up:
  "insert_heap h element = spec_insert h element
   \<and> (storage h \<noteq> [] \<and>
        comparator h element (storage h ! ((length (storage h) - 1) div 2)) = 0 \<longrightarrow>
        storage (insert_heap h element) = storage h @ [element])"
proof -
  let ?h' = "h\<lparr>storage := storage h @ [element]\<rparr>"
  have eq: "insert_heap h element = spec_insert h element"
  proof (cases "storage h = []")
    case True
    have "spec_sift_up ?h' 0 = ?h'" by (subst spec_sift_up.simps) simp
    then show ?thesis using True by (simp add: insert_heap_def js_push_def spec_insert_def)
  next
    case False
    then have n: "0 < length (storage h)" "length (storage h) < length (storage ?h')" by simp_all
    have "insert_heap h element = heapUp ?h' (length (storage h))"
      using False by (simp add: insert_heap_def js_push_def Let_def)
    then show ?thesis using sift_up_eq [OF n] by (simp add: spec_insert_def)
  qed
  have tie: "storage (insert_heap h element) = storage h @ [element]"
    if ne: "storage h \<noteq> []"
      and z: "comparator h element (storage h ! ((length (storage h) - 1) div 2)) = 0"
  proof -
    let ?n = "length (storage h)"
    have n: "0 < ?n" "?n < length (storage ?h')" using ne by simp_all
    have p: "(?n - 1) div 2 < ?n" using n by linarith
    have v: "storage ?h' ! ?n = element" "storage ?h' ! ((?n - 1) div 2) = storage h ! ((?n - 1) div 2)"
      using p by (simp_all add: nth_append)
    have "insert_heap h element = heapUp ?h' ?n"
      using ne by (simp add: insert_heap_def js_push_def Let_def)
    moreover have "heapUp ?h' ?n = ?h'"
      using heapUp_unfold [OF n] v z by simp
    ultimately show ?thesis by simp
  qed
  show ?thesis using eq tie by blast
qed

text \<open>A second \<open>1\<close> inserted under the root \<open>1\<close> stays at the end.\<close>

theorem insert_is_append_then_sift_up_witness:
  "storage \<lparr>mode = MinHeap, comparator = naivePrimitiveComparator, storage = [Number 1, Number 5]\<rparr> \<noteq> []
   \<and> naivePrimitiveComparator (Number 1) (Number 1) = 0
   \<and> storage (insert_heap \<lparr>mode = MinHeap, comparator = naivePrimitiveComparator,
                            storage = [Number 1, Number 5]\<rparr> (Number 1))
       = [Number 1, Number 5, Number 1]"
proof -
  let ?h = "\<lparr>mode = MinHeap, comparator = naivePrimitiveComparator, storage = [Number 1, Number 5]\<rparr>"
  have a: "storage ?h \<noteq> []" by simp
  have b: "comparator ?h (Number 1) (storage ?h ! ((length (storage ?h) - 1) div 2)) = 0"
    by (simp add: naivePrimitiveComparator_def)
  have "storage (insert_heap ?h (Number 1)) = storage ?h @ [Number 1]"
    using insert_is_append_then_sift_up [of ?h "Number 1"] a b by blast
  then show ?thesis by (simp add: naivePrimitiveComparator_def)
qed

text \<open>
  C9. On a storage that is not empty, \<^verbatim>\<open>remove\<close> is the removal of the specification:
  a single element is popped and returned with no sift; otherwise the root is
  returned, the last element replaces it in a storage one shorter, and it is sifted
  down against the chosen child, the comparator result negated in min mode, with a
  stop at a missing left child or at a result \<open>\<ge> 0\<close> and a swap and a step to the child
  otherwise.
\<close>

theorem remove_is_pop_or_move_last_then_sift_down:
  assumes "storage h \<noteq> []"
  shows "remove_heap h = spec_remove h"
proof (cases "length (storage h) = 1")
  case True
  then obtain x where x: "storage h = [x]" by (cases "storage h") auto
  show ?thesis using remove_single [OF x] x by (simp add: spec_remove_def)
next
  case False
  then have "2 \<le> length (storage h)"
    using assms by (cases "storage h") (auto simp: Suc_le_eq)
  then obtain y b x where st: "storage h = y # b @ [x]" using list_ends by blast
  have "(butlast (storage h))[0 := last (storage h)] = x # b"
    using st by (simp add: butlast_append)
  then have "spec_remove h = (y, spec_sift_down (h\<lparr>storage := x # b\<rparr>) 0)"
    using st by (simp add: spec_remove_def)
  then show ?thesis using remove_general [OF st] sift_down_eq by simp
qed

text \<open>A min heap of four elements.\<close>

theorem remove_is_pop_or_move_last_then_sift_down_witness:
  "storage \<lparr>mode = MinHeap, comparator = naivePrimitiveComparator,
            storage = [Number 1, Number 5, Number 19, Number 7]\<rparr> \<noteq> []
   \<and> remove_heap \<lparr>mode = MinHeap, comparator = naivePrimitiveComparator,
                   storage = [Number 1, Number 5, Number 19, Number 7]\<rparr>
       = spec_remove \<lparr>mode = MinHeap, comparator = naivePrimitiveComparator,
                      storage = [Number 1, Number 5, Number 19, Number 7]\<rparr>
   \<and> storage (snd (spec_remove \<lparr>mode = MinHeap, comparator = naivePrimitiveComparator,
                                 storage = [Number 1, Number 5, Number 19, Number 7]\<rparr>))
       = [Number 5, Number 7, Number 19]"
proof -
  let ?h = "\<lparr>mode = MinHeap, comparator = naivePrimitiveComparator,
             storage = [Number 1, Number 5, Number 19, Number 7]\<rparr>"
  have a: "storage ?h \<noteq> []" by simp
  have b: "storage (snd (spec_remove ?h)) = [Number 5, Number 7, Number 19]" by code_simp
  show ?thesis using a b remove_is_pop_or_move_last_then_sift_down [OF a] by simp
qed

text \<open>
  C10. \<^verbatim>\<open>remove\<close> on an empty storage returns \<^verbatim>\<open>undefined\<close> and leaves a storage of
  exactly one element, \<^verbatim>\<open>undefined\<close>; the \<^verbatim>\<open>peek\<close> that follows returns \<^verbatim>\<open>undefined\<close>
  and not \<^verbatim>\<open>false\<close>; the \<^verbatim>\<open>remove\<close> that follows returns \<^verbatim>\<open>undefined\<close> and leaves the
  storage empty again.
\<close>

theorem remove_on_empty_leaves_phantom:
  assumes "storage h = []"
  shows "remove_heap h = (Undefined, h\<lparr>storage := [Undefined]\<rparr>)
     \<and> length (storage (snd (remove_heap h))) = 1
     \<and> fst (peek (snd (remove_heap h))) = Undefined
     \<and> fst (peek (snd (remove_heap h))) \<noteq> Boolean False
     \<and> fst (remove_heap (snd (remove_heap h))) = Undefined
     \<and> storage (snd (remove_heap (snd (remove_heap h)))) = []"
proof -
  have r: "remove_heap h = (Undefined, h\<lparr>storage := [Undefined]\<rparr>)"
    using remove_empty [OF assms] .
  have r2: "remove_heap (h\<lparr>storage := [Undefined]\<rparr>) = (Undefined, h\<lparr>storage := []\<rparr>)"
    using remove_single [of "h\<lparr>storage := [Undefined]\<rparr>" Undefined] by simp
  show ?thesis using r r2 by (simp add: peek_def js_get_def)
qed

text \<open>The heap of \<^verbatim>\<open>Factory()\<close>.\<close>

theorem remove_on_empty_leaves_phantom_witness:
  "storage \<lparr>mode = MinHeap, comparator = naivePrimitiveComparator, storage = []\<rparr> = []
   \<and> remove_heap \<lparr>mode = MinHeap, comparator = naivePrimitiveComparator, storage = []\<rparr>
       = (Undefined, \<lparr>mode = MinHeap, comparator = naivePrimitiveComparator, storage = [Undefined]\<rparr>)"
proof -
  have e: "storage \<lparr>mode = MinHeap, comparator = naivePrimitiveComparator, storage = []\<rparr> = []"
    by simp
  show ?thesis using e remove_on_empty_leaves_phantom [OF e] by simp
qed

end
